theory Spec2Isabelle
  imports Main
begin

section \<open>Characters and strings\<close>

text \<open>
  Transcript texts are modelled as ASCII strings. The character classes below are the ones
  Python's \<^verbatim>\<open>str\<close> methods and the \<^verbatim>\<open>re\<close> module use on ASCII text:
  \<^verbatim>\<open>\d\<close> is \<^verbatim>\<open>0-9\<close>, \<^verbatim>\<open>\w\<close> is a letter, a digit or the underscore, and
  \<^verbatim>\<open>\s\<close> (as \<^verbatim>\<open>str.isspace\<close>) is one of the codes 9 to 13 and 28 to 32.
\<close>

definition is_digit :: "char \<Rightarrow> bool" where
  "is_digit c = (48 \<le> (of_char c :: nat) \<and> (of_char c :: nat) \<le> 57)"

definition is_upper :: "char \<Rightarrow> bool" where
  "is_upper c = (65 \<le> (of_char c :: nat) \<and> (of_char c :: nat) \<le> 90)"

definition is_lower :: "char \<Rightarrow> bool" where
  "is_lower c = (97 \<le> (of_char c :: nat) \<and> (of_char c :: nat) \<le> 122)"

definition is_space :: "char \<Rightarrow> bool" where
  "is_space c = ((9 \<le> (of_char c :: nat) \<and> (of_char c :: nat) \<le> 13) \<or>
                 (28 \<le> (of_char c :: nat) \<and> (of_char c :: nat) \<le> 32))"

definition is_word :: "char \<Rightarrow> bool" where
  "is_word c = (is_digit c \<or> is_upper c \<or> is_lower c \<or> c = CHR ''_'')"

definition lower_char :: "char \<Rightarrow> char" where
  "lower_char c = (if is_upper c then char_of (of_char c + (32::nat)) else c)"

definition upper_char :: "char \<Rightarrow> char" where
  "upper_char c = (if is_lower c then char_of (of_char c - (32::nat)) else c)"

definition lower :: "string \<Rightarrow> string" where
  "lower s = map lower_char s"

definition upper :: "string \<Rightarrow> string" where
  "upper s = map upper_char s"

text \<open>\<^verbatim>\<open>str.strip()\<close>: whitespace removed at both ends.\<close>

definition strip :: "string \<Rightarrow> string" where
  "strip s = rev (dropWhile is_space (rev (dropWhile is_space s)))"

text \<open>
  \<^verbatim>\<open>str.title()\<close>: a character that follows a letter is lower-cased, any other
  character is upper-cased (characters that are not letters have no case and stay).
\<close>

fun title_from :: "bool \<Rightarrow> string \<Rightarrow> string" where
  "title_from previous_is_cased [] = []"
| "title_from previous_is_cased (c # cs) =
     (if previous_is_cased then lower_char c else upper_char c)
       # title_from (is_upper c \<or> is_lower c) cs"

definition title :: "string \<Rightarrow> string" where
  "title s = title_from False s"

text \<open>The \<^verbatim>\<open>in\<close> operator on strings: \<open>contains sub s\<close> is \<^verbatim>\<open>sub in s\<close>.\<close>

fun starts_with :: "string \<Rightarrow> string \<Rightarrow> bool" where
  "starts_with [] s = True"
| "starts_with (a # as) [] = False"
| "starts_with (a # as) (c # cs) = (a = c \<and> starts_with as cs)"

fun contains :: "string \<Rightarrow> string \<Rightarrow> bool" where
  "contains sub [] = (sub = [])"
| "contains sub (c # cs) = (starts_with sub (c # cs) \<or> contains sub cs)"

section \<open>Regular expressions as Python's \<^verbatim>\<open>re\<close> module matches them\<close>

text \<open>
  Items of a bracketed character class: a single character, a range \<^verbatim>\<open>a-z\<close>, or one
  of the escapes \<^verbatim>\<open>\d\<close>, \<^verbatim>\<open>\w\<close>, \<^verbatim>\<open>\s\<close>.
\<close>

datatype citem = CChar char | CRange char char | CDigit | CWord | CSpace

fun item_has :: "citem \<Rightarrow> char \<Rightarrow> bool" where
  "item_has (CChar a) c = (c = a)"
| "item_has (CRange lo hi) c = ((of_char lo :: nat) \<le> of_char c \<and> (of_char c :: nat) \<le> of_char hi)"
| "item_has CDigit c = is_digit c"
| "item_has CWord c = is_word c"
| "item_has CSpace c = is_space c"

text \<open>
  Membership of a character in a class; under \<^verbatim>\<open>re.IGNORECASE\<close> (\<open>ic\<close>) the
  character also matches when its lower-case or upper-case form is in the class.
\<close>

definition items_have :: "bool \<Rightarrow> citem list \<Rightarrow> char \<Rightarrow> bool" where
  "items_have ic its c =
     (list_ex (\<lambda>it. item_has it c) its \<or>
      (ic \<and> (list_ex (\<lambda>it. item_has it (lower_char c)) its \<or>
             list_ex (\<lambda>it. item_has it (upper_char c)) its)))"

text \<open>
  The pattern syntax used by the program: literals, classes \<^verbatim>\<open>[...]\<close> and negated
  classes \<^verbatim>\<open>[^...]\<close>, the dot, concatenation, alternation, greedy repetition
  \<^verbatim>\<open>{lo,hi}\<close> (\<open>None\<close> for no upper bound) and its lazy form \<^verbatim>\<open>{lo,hi}?\<close>,
  capturing groups, \<^verbatim>\<open>\b\<close>, \<^verbatim>\<open>^\<close>, \<^verbatim>\<open>$\<close> and the lookahead
  \<^verbatim>\<open>(?=...)\<close>.
\<close>

datatype regex =
    Eps
  | Lit char
  | Cls "citem list"
  | NCls "citem list"
  | Dot
  | Seq regex regex
  | Alt regex regex
  | Rep nat "nat option" regex
  | RepLazy nat "nat option" regex
  | Grp nat regex
  | WordB
  | Bos
  | Eos
  | Look regex

text \<open>
  A cursor is a position in the subject string: the character before it (none at the
  start), the text still to be read, and the groups captured so far (latest first).
\<close>

type_synonym captures = "(nat \<times> string) list"
type_synonym cursor = "char option \<times> string \<times> captures"

fun rsize :: "regex \<Rightarrow> nat" where
  "rsize (Seq a b) = Suc (rsize a + rsize b)"
| "rsize (Alt a b) = Suc (rsize a + rsize b)"
| "rsize (Rep lo hi r) = Suc (rsize r)"
| "rsize (RepLazy lo hi r) = Suc (rsize r)"
| "rsize (Grp n r) = Suc (rsize r)"
| "rsize (Look r) = Suc (rsize r)"
| "rsize _ = 0"

text \<open>\<^verbatim>\<open>\b\<close>: exactly one of the two neighbouring characters is a word character.\<close>

definition at_boundary :: "char option \<Rightarrow> string \<Rightarrow> bool" where
  "at_boundary prev s =
     ((case prev of None \<Rightarrow> False | Some c \<Rightarrow> is_word c) \<noteq>
      (case s of [] \<Rightarrow> False | c # _ \<Rightarrow> is_word c))"

fun dec_hi :: "nat option \<Rightarrow> nat option" where
  "dec_hi None = None"
| "dec_hi (Some n) = Some (n - 1)"

text \<open>The text read between a cursor at \<open>s\<close> and a later cursor at its suffix \<open>t\<close>.\<close>

definition consumed :: "string \<Rightarrow> string \<Rightarrow> string" where
  "consumed s t = take (length s - length t) s"

text \<open>
  \<open>ends ic r cur\<close> lists the cursors at which a match of \<open>r\<close> starting at \<open>cur\<close> can
  end, in the order in which the backtracking matcher tries them: the first alternative
  before the second, one more repetition before stopping (for a lazy repetition, stopping
  before one more repetition). The head of the list is the match the \<^verbatim>\<open>re\<close>
  module reports. A repetition goes round again only after its body has read at least one
  character.
\<close>

function (sequential) ends :: "bool \<Rightarrow> regex \<Rightarrow> cursor \<Rightarrow> cursor list" where
  "ends ic Eps cur = [cur]"
| "ends ic (Lit a) (prev, [], g) = []"
| "ends ic (Lit a) (prev, c # cs, g) = (if items_have ic [CChar a] c then [(Some c, cs, g)] else [])"
| "ends ic (Cls its) (prev, [], g) = []"
| "ends ic (Cls its) (prev, c # cs, g) = (if items_have ic its c then [(Some c, cs, g)] else [])"
| "ends ic (NCls its) (prev, [], g) = []"
| "ends ic (NCls its) (prev, c # cs, g) = (if items_have ic its c then [] else [(Some c, cs, g)])"
| "ends ic Dot (prev, [], g) = []"
| "ends ic Dot (prev, c # cs, g) = (if c = CHR 0x0A then [] else [(Some c, cs, g)])"
| "ends ic (Seq a b) cur = concat (map (ends ic b) (ends ic a cur))"
| "ends ic (Alt a b) cur = ends ic a cur @ ends ic b cur"
| "ends ic (Rep lo hi r) (prev, s, g) =
     (if hi = Some 0 then []
      else concat (map (\<lambda>(p, t, h). if length t < length s
                                     then ends ic (Rep (lo - 1) (dec_hi hi) r) (p, t, h) else [])
                       (ends ic r (prev, s, g))))
     @ (if lo = 0 then [(prev, s, g)] else [])"
| "ends ic (Grp n r) (prev, s, g) =
     map (\<lambda>(p, t, h). (p, t, (n, consumed s t) # h)) (ends ic r (prev, s, g))"
| "ends ic WordB (prev, s, g) = (if at_boundary prev s then [(prev, s, g)] else [])"
| "ends ic Eos (prev, s, g) = (if s = [] \<or> s = [CHR 0x0A] then [(prev, s, g)] else [])"
| "ends ic (Look r) cur = (if ends ic r cur = [] then [] else [cur])"
| "ends ic (RepLazy lo hi r) (prev, s, g) =
     (if lo = 0 then [(prev, s, g)] else [])
     @ (if hi = Some 0 then []
        else concat (map (\<lambda>(p, t, h). if length t < length s
                                       then ends ic (RepLazy (lo - 1) (dec_hi hi) r) (p, t, h) else [])
                         (ends ic r (prev, s, g))))"
| "ends ic Bos (prev, s, g) = (if prev = None then [(prev, s, g)] else [])"
  by pat_completeness auto
termination
  by (relation "measures [\<lambda>(ic, r, p, s, g). rsize r, \<lambda>(ic, r, p, s, g). length s]") auto

text \<open>
  The scan shared by \<^verbatim>\<open>re.findall\<close>, \<^verbatim>\<open>re.sub\<close> and \<^verbatim>\<open>re.split\<close>: the
  non-overlapping matches from left to right, each with the unmatched text before it and
  its captures, and the unmatched text after the last match. After a match the scan goes
  on where the match ended; where the pattern does not match, it moves one character on.
  (Every pattern of the program reads at least one character; an empty match is recorded
  and the scan moves one character on.)
\<close>

fun skip :: "char \<Rightarrow> (string \<times> string \<times> captures) list \<times> string \<Rightarrow>
    (string \<times> string \<times> captures) list \<times> string" where
  "skip c ([], rest) = ([], c # rest)"
| "skip c ((gap, m, g) # ms, rest) = ((c # gap, m, g) # ms, rest)"

fun push :: "string \<times> captures \<Rightarrow> (string \<times> string \<times> captures) list \<times> string \<Rightarrow>
    (string \<times> string \<times> captures) list \<times> string" where
  "push (m, g) (ms, rest) = (([], m, g) # ms, rest)"

function scan :: "bool \<Rightarrow> regex \<Rightarrow> char option \<Rightarrow> string \<Rightarrow>
    (string \<times> string \<times> captures) list \<times> string" where
  "scan ic r prev s =
     (case ends ic r (prev, s, []) of
        [] \<Rightarrow> (case s of [] \<Rightarrow> ([], []) | c # cs \<Rightarrow> skip c (scan ic r (Some c) cs))
      | (p, t, g) # _ \<Rightarrow>
          (if length t < length s then push (consumed s t, g) (scan ic r p t)
           else (case s of [] \<Rightarrow> ([([], [], g)], [])
                 | c # cs \<Rightarrow> push ([], g) (skip c (scan ic r (Some c) cs)))))"
  by pat_completeness auto
termination
  by (relation "measure (\<lambda>(ic, r, p, s). length s)") auto

declare scan.simps [simp del]

definition re_findall :: "bool \<Rightarrow> regex \<Rightarrow> string \<Rightarrow> string list" where
  "re_findall ic r s = map (\<lambda>(gap, m, g). m) (fst (scan ic r None s))"

definition re_sub :: "bool \<Rightarrow> regex \<Rightarrow> string \<Rightarrow> string \<Rightarrow> string" where
  "re_sub ic r repl s =
     (case scan ic r None s of (ms, rest) \<Rightarrow> concat (map (\<lambda>(gap, m, g). gap @ repl) ms) @ rest)"

definition re_split :: "bool \<Rightarrow> regex \<Rightarrow> string \<Rightarrow> string list" where
  "re_split ic r s =
     (case scan ic r None s of (ms, rest) \<Rightarrow> map (\<lambda>(gap, m, g). gap) ms @ [rest])"

text \<open>\<^verbatim>\<open>re.search\<close>: the first match, as its text (group 0) and its captures.\<close>

definition re_search :: "bool \<Rightarrow> regex \<Rightarrow> string \<Rightarrow> (string \<times> captures) option" where
  "re_search ic r s =
     (case fst (scan ic r None s) of [] \<Rightarrow> None | (gap, m, g) # _ \<Rightarrow> Some (m, g))"

subsection \<open>Writing patterns\<close>

primrec Str :: "string \<Rightarrow> regex" where
  "Str [] = Eps"
| "Str (c # cs) = Seq (Lit c) (Str cs)"

primrec Seqs :: "regex list \<Rightarrow> regex" where
  "Seqs [] = Eps"
| "Seqs (r # rs) = Seq r (Seqs rs)"

fun Alts :: "regex list \<Rightarrow> regex" where
  "Alts [] = NCls []"
| "Alts [r] = r"
| "Alts (r # rs) = Alt r (Alts rs)"

definition Star :: "regex \<Rightarrow> regex" where "Star r = Rep 0 None r"
definition Plus :: "regex \<Rightarrow> regex" where "Plus r = Rep 1 None r"
definition Opt :: "regex \<Rightarrow> regex" where "Opt r = Rep 0 (Some 1) r"
definition Times :: "nat \<Rightarrow> regex \<Rightarrow> regex" where "Times n r = Rep n (Some n) r"

definition AnyChar :: regex where
  \<comment> \<open>the dot under \<^verbatim>\<open>re.DOTALL\<close>: any character, the newline too\<close>
  "AnyChar = NCls []"

definition Digit :: regex where "Digit = Cls [CDigit]"
definition Space :: regex where "Space = Cls [CSpace]"
definition Word :: regex where "Word = Cls [CWord]"
definition AZ :: citem where "AZ = CRange CHR ''A'' CHR ''Z''"
definition az :: citem where "az = CRange CHR ''a'' CHR ''z''"
definition d09 :: citem where "d09 = CRange CHR ''0'' CHR ''9''"

section \<open>Errors and dictionaries\<close>

text \<open>The exceptions the modelled code can raise.\<close>

datatype error = KeyError | TypeError | IndexError

text \<open>
  A dictionary with string keys is an association list in insertion order, which is the
  order in which Python iterates over it. \<open>lookup d k\<close> is \<^verbatim>\<open>d[k]\<close>.
\<close>

fun lookup :: "(string \<times> 'a) list \<Rightarrow> string \<Rightarrow> error + 'a" where
  "lookup [] k = Inl KeyError"
| "lookup ((k', v) # d) k = (if k' = k then Inr v else lookup d k)"

section \<open>PII masking (\<^verbatim>\<open>src/pii_masker.py\<close>)\<close>

subsection \<open>The pattern table \<^verbatim>\<open>PIIMasker.pii_patterns\<close>\<close>

definition phone_dashes :: regex where
  \<comment> \<open>\<^verbatim>\<open>\b\d{3}-\d{3}-\d{4}\b\<close>\<close>
  "phone_dashes = Seqs [WordB, Times 3 Digit, Lit CHR ''-'', Times 3 Digit, Lit CHR ''-'',
                        Times 4 Digit, WordB]"

definition phone_parens :: regex where
  \<comment> \<open>\<^verbatim>\<open>\b\(\d{3}\)\s*\d{3}-\d{4}\b\<close>\<close>
  "phone_parens = Seqs [WordB, Lit CHR ''('', Times 3 Digit, Lit CHR '')'', Star Space,
                        Times 3 Digit, Lit CHR ''-'', Times 4 Digit, WordB]"

definition phone_dots :: regex where
  \<comment> \<open>\<^verbatim>\<open>\b\d{3}\.\d{3}\.\d{4}\b\<close>\<close>
  "phone_dots = Seqs [WordB, Times 3 Digit, Lit CHR ''.'', Times 3 Digit, Lit CHR ''.'',
                      Times 4 Digit, WordB]"

definition phone_plain :: regex where
  \<comment> \<open>\<^verbatim>\<open>\b\d{10}\b\<close>\<close>
  "phone_plain = Seqs [WordB, Times 10 Digit, WordB]"

definition email_pattern :: regex where
  \<comment> \<open>\<^verbatim>\<open>\b[A-Za-z0-9._%+-]+@[A-Za-z0-9.-]+\.[A-Z|a-z]{2,}\b\<close>\<close>
  "email_pattern = Seqs [WordB,
     Plus (Cls [AZ, az, d09, CChar CHR ''.'', CChar CHR ''_'', CChar CHR ''%'', CChar CHR ''+'',
                CChar CHR ''-'']),
     Lit CHR ''@'',
     Plus (Cls [AZ, az, d09, CChar CHR ''.'', CChar CHR ''-'']),
     Lit CHR ''.'',
     Rep 2 None (Cls [AZ, CChar CHR ''|'', az]),
     WordB]"

definition account_digits :: regex where
  \<comment> \<open>\<^verbatim>\<open>\b\d{10,15}\b\<close>\<close>
  "account_digits = Seqs [WordB, Rep 10 (Some 15) Digit, WordB]"

definition account_alnum :: regex where
  \<comment> \<open>\<^verbatim>\<open>\b[A-Z0-9]{8,12}\b\<close>\<close>
  "account_alnum = Seqs [WordB, Rep 8 (Some 12) (Cls [AZ, d09]), WordB]"

definition imei_pattern :: regex where
  \<comment> \<open>\<^verbatim>\<open>\b\d{15}\b\<close>\<close>
  "imei_pattern = Seqs [WordB, Times 15 Digit, WordB]"

definition credit_card_pattern :: regex where
  \<comment> \<open>\<^verbatim>\<open>\b\d{4}[\s-]?\d{4}[\s-]?\d{4}[\s-]?\d{4}\b\<close>\<close>
  "credit_card_pattern = Seqs [WordB,
     Times 4 Digit, Opt (Cls [CSpace, CChar CHR ''-'']),
     Times 4 Digit, Opt (Cls [CSpace, CChar CHR ''-'']),
     Times 4 Digit, Opt (Cls [CSpace, CChar CHR ''-'']),
     Times 4 Digit, WordB]"

definition ssn_pattern :: regex where
  \<comment> \<open>\<^verbatim>\<open>\b\d{3}-\d{2}-\d{4}\b\<close>\<close>
  "ssn_pattern = Seqs [WordB, Times 3 Digit, Lit CHR ''-'', Times 2 Digit, Lit CHR ''-'',
                       Times 4 Digit, WordB]"

definition name_labelled :: regex where
  \<comment> \<open>\<^verbatim>\<open>\b(?:Agent|Customer):\s*[A-Z][a-z]+\s+[A-Z][a-z]+\b\<close>\<close>
  "name_labelled = Seqs [WordB, Alts [Str ''Agent'', Str ''Customer''], Lit CHR '':'', Star Space,
     Cls [AZ], Plus (Cls [az]), Plus Space, Cls [AZ], Plus (Cls [az]), WordB]"

definition name_before_verb :: regex where
  \<comment> \<open>\<^verbatim>\<open>\b[A-Z][a-z]+\s+[A-Z][a-z]+(?=\s+(?:said|called|from))\b\<close>\<close>
  "name_before_verb = Seqs [WordB, Cls [AZ], Plus (Cls [az]), Plus Space, Cls [AZ], Plus (Cls [az]),
     Look (Seqs [Plus Space, Alts [Str ''said'', Str ''called'', Str ''from'']]), WordB]"

definition street_address :: regex where
  \<comment> \<open>\<^verbatim>\<open>\b\d+\s+[A-Za-z0-9\s]+(?:Street|St|Avenue|Ave|Road|Rd|Drive|Dr|Lane|Ln|Boulevard|Blvd|Way|Place|Pl)\b\<close>\<close>
  "street_address = Seqs [WordB, Plus Digit, Plus Space, Plus (Cls [AZ, az, d09, CSpace]),
     Alts [Str ''Street'', Str ''St'', Str ''Avenue'', Str ''Ave'', Str ''Road'', Str ''Rd'',
           Str ''Drive'', Str ''Dr'', Str ''Lane'', Str ''Ln'', Str ''Boulevard'', Str ''Blvd'',
           Str ''Way'', Str ''Place'', Str ''Pl''],
     WordB]"

definition zip_pattern :: regex where
  \<comment> \<open>\<^verbatim>\<open>\b\d{5}(?:-\d{4})?\b\<close>\<close>
  "zip_pattern = Seqs [WordB, Times 5 Digit, Opt (Seqs [Lit CHR ''-'', Times 4 Digit]), WordB]"

definition pii_patterns :: "(string \<times> regex list) list" where
  "pii_patterns =
     [(''phone_numbers'', [phone_dashes, phone_parens, phone_dots, phone_plain]),
      (''emails'', [email_pattern]),
      (''account_numbers'', [account_digits, account_alnum]),
      (''imei_numbers'', [imei_pattern]),
      (''credit_cards'', [credit_card_pattern]),
      (''ssn'', [ssn_pattern]),
      (''names'', [name_labelled, name_before_verb]),
      (''addresses'', [street_address, zip_pattern])]"

definition replacements :: "(string \<times> string) list" where
  "replacements =
     [(''phone_numbers'', ''[PHONE_NUMBER]''),
      (''emails'', ''[EMAIL_ADDRESS]''),
      (''account_numbers'', ''[ACCOUNT_NUMBER]''),
      (''imei_numbers'', ''[DEVICE_ID]''),
      (''credit_cards'', ''[CREDIT_CARD]''),
      (''ssn'', ''[SSN]''),
      (''names'', ''[CUSTOMER_NAME]''),
      (''addresses'', ''[ADDRESS]'')]"

subsection \<open>The telecom patterns of \<^verbatim>\<open>_mask_telecom_specific\<close>\<close>

definition label_sep :: regex where
  \<comment> \<open>\<^verbatim>\<open>[:\s]+\<close>\<close>
  "label_sep = Plus (Cls [CChar CHR '':'', CSpace])"

definition sim_number_pattern :: regex where
  \<comment> \<open>\<^verbatim>\<open>\b(SIM|sim)\s*(card\s*)?number[:\s]+[\w\d]+\<close>\<close>
  "sim_number_pattern = Seqs [WordB, Grp 1 (Alts [Str ''SIM'', Str ''sim'']), Star Space,
     Opt (Grp 2 (Seqs [Str ''card'', Star Space])), Str ''number'', label_sep,
     Plus (Cls [CWord, CDigit])]"

definition activation_code_pattern :: regex where
  \<comment> \<open>\<^verbatim>\<open>\bactivation\s*code[:\s]+[\w\d]+\<close>\<close>
  "activation_code_pattern = Seqs [WordB, Str ''activation'', Star Space, Str ''code'', label_sep,
     Plus (Cls [CWord, CDigit])]"

definition port_request_pattern :: regex where
  \<comment> \<open>\<^verbatim>\<open>\bport\s*request[:\s]+[\w\d-]+\<close>\<close>
  "port_request_pattern = Seqs [WordB, Str ''port'', Star Space, Str ''request'', label_sep,
     Plus (Cls [CWord, CDigit, CChar CHR ''-''])]"

definition trade_in_pattern :: regex where
  \<comment> \<open>\<^verbatim>\<open>\btrade-in\s*reference[:\s]+[\w\d-]+\<close>\<close>
  "trade_in_pattern = Seqs [WordB, Str ''trade-in'', Star Space, Str ''reference'', label_sep,
     Plus (Cls [CWord, CDigit, CChar CHR ''-''])]"

definition order_confirmation_pattern :: regex where
  \<comment> \<open>\<^verbatim>\<open>\border\s*confirmation[:\s]+[\w\d-]+\<close>\<close>
  "order_confirmation_pattern = Seqs [WordB, Str ''order'', Star Space, Str ''confirmation'',
     label_sep, Plus (Cls [CWord, CDigit, CChar CHR ''-''])]"

definition billing_address_pattern :: regex where
  \<comment> \<open>\<^verbatim>\<open>\bbilling\s*address[:\s]+[^.]+\.\<close>\<close>
  "billing_address_pattern = Seqs [WordB, Str ''billing'', Star Space, Str ''address'', label_sep,
     Plus (NCls [CChar CHR ''.'']), Lit CHR ''.'']"

definition zip_code_pattern :: regex where
  \<comment> \<open>\<^verbatim>\<open>\bZIP\s*code[:\s]+\d{5}\<close>\<close>
  "zip_code_pattern = Seqs [WordB, Str ''ZIP'', Star Space, Str ''code'', label_sep, Times 5 Digit]"

definition telecom_patterns :: "(regex \<times> string) list" where
  "telecom_patterns =
     [(sim_number_pattern, ''[SIM_NUMBER]''),
      (activation_code_pattern, ''[ACTIVATION_CODE]''),
      (port_request_pattern, ''[PORT_REQUEST_ID]''),
      (trade_in_pattern, ''[TRADE_IN_ID]''),
      (order_confirmation_pattern, ''[ORDER_ID]''),
      (billing_address_pattern, ''[BILLING_ADDRESS].''),
      (zip_code_pattern, ''[ZIP_CODE]'')]"

text \<open>\<^verbatim>\<open>_mask_telecom_specific\<close>: each pattern substituted in turn, ignoring case.\<close>

fun mask_telecom_from :: "(regex \<times> string) list \<Rightarrow> string \<Rightarrow> string" where
  "mask_telecom_from [] masked_text = masked_text"
| "mask_telecom_from ((pattern, replacement) # rest) masked_text =
     mask_telecom_from rest (re_sub True pattern replacement masked_text)"

definition mask_telecom_specific :: "string \<Rightarrow> string" where
  "mask_telecom_specific text = mask_telecom_from telecom_patterns text"

subsection \<open>\<^verbatim>\<open>_mask_text\<close>\<close>

text \<open>The tally \<^verbatim>\<open>{pii_type: 0 for pii_type in self.pii_patterns.keys()}\<close>.\<close>

type_synonym tally = "(string \<times> nat) list"

definition zero_tally :: tally where
  "zero_tally = map (\<lambda>(pii_type, patterns). (pii_type, 0)) pii_patterns"

text \<open>\<^verbatim>\<open>counts[pii_type] += n\<close>, a \<^verbatim>\<open>KeyError\<close> when the key is missing.\<close>

fun add_count :: "string \<Rightarrow> nat \<Rightarrow> tally \<Rightarrow> error + tally" where
  "add_count k n [] = Inl KeyError"
| "add_count k n ((k', v) # rest) =
     (if k' = k then Inr ((k', v + n) # rest)
      else (case add_count k n rest of Inl e \<Rightarrow> Inl e | Inr rest' \<Rightarrow> Inr ((k', v) # rest')))"

text \<open>The inner loop over the patterns of one category: count the matches, then replace them.\<close>

fun mask_patterns :: "string \<Rightarrow> string \<Rightarrow> regex list \<Rightarrow> string \<times> tally \<Rightarrow> error + (string \<times> tally)" where
  "mask_patterns pii_type replacement [] st = Inr st"
| "mask_patterns pii_type replacement (pattern # rest) (masked_text, pii_counts) =
     (case add_count pii_type (length (re_findall True pattern masked_text)) pii_counts of
        Inl e \<Rightarrow> Inl e
      | Inr pii_counts' \<Rightarrow>
          mask_patterns pii_type replacement rest
            (re_sub True pattern replacement masked_text, pii_counts'))"

text \<open>The outer loop over the categories, in the order of the table.\<close>

fun mask_categories :: "(string \<times> regex list) list \<Rightarrow> string \<times> tally \<Rightarrow> error + (string \<times> tally)" where
  "mask_categories [] st = Inr st"
| "mask_categories ((pii_type, patterns) # rest) st =
     (case lookup replacements pii_type of
        Inl e \<Rightarrow> Inl e
      | Inr replacement \<Rightarrow>
          (case mask_patterns pii_type replacement patterns st of
             Inl e \<Rightarrow> Inl e
           | Inr st' \<Rightarrow> mask_categories rest st'))"

definition mask_text :: "string \<Rightarrow> error + (string \<times> tally)" where
  "mask_text text =
     (if text = [] then Inr (text, zero_tally)
      else (case mask_categories pii_patterns (text, zero_tally) of
              Inl e \<Rightarrow> Inl e
            | Inr (masked_text, pii_counts) \<Rightarrow> Inr (mask_telecom_specific masked_text, pii_counts)))"

subsection \<open>\<^verbatim>\<open>_mask_single_transcript\<close> and \<^verbatim>\<open>mask_data\<close>\<close>

text \<open>
  A transcript record is a dictionary read from JSON. Its values are strings, and the
  integer \<^verbatim>\<open>raw_text_length\<close>. \<open>truthy\<close> is Python's truth value.
\<close>

datatype jvalue = JStr string | JInt int

type_synonym transcript = "string \<rightharpoonup> jvalue"

fun truthy :: "jvalue \<Rightarrow> bool" where
  "truthy (JStr s) = (s \<noteq> [])"
| "truthy (JInt n) = (n \<noteq> 0)"

text \<open>
  \<^verbatim>\<open>_mask_text\<close> applied to a field value: a value that is not true is returned as it
  is with a zero tally, a string is masked, and \<^verbatim>\<open>re.findall\<close> raises
  \<^verbatim>\<open>TypeError\<close> on a number.
\<close>

fun mask_value :: "jvalue \<Rightarrow> error + (jvalue \<times> tally)" where
  "mask_value (JStr s) =
     (case mask_text s of Inl e \<Rightarrow> Inl e | Inr (masked_text, pii_counts) \<Rightarrow> Inr (JStr masked_text, pii_counts))"
| "mask_value (JInt n) = (if n = 0 then Inr (JInt n, zero_tally) else Inl TypeError)"

text \<open>\<^verbatim>\<open>for pii_type, count in found.items(): totals[pii_type] += count\<close>\<close>

fun add_tally :: "tally \<Rightarrow> tally \<Rightarrow> error + tally" where
  "add_tally [] totals = Inr totals"
| "add_tally ((pii_type, count) # rest) totals =
     (case add_count pii_type count totals of
        Inl e \<Rightarrow> Inl e
      | Inr totals' \<Rightarrow> add_tally rest totals')"

definition fields_to_mask :: "string list" where
  "fields_to_mask = [''transcript'', ''resolution'', ''impact'', ''root_cause'']"

text \<open>The loop over \<^verbatim>\<open>fields_to_mask\<close>.\<close>

fun mask_fields :: "string list \<Rightarrow> transcript \<times> tally \<Rightarrow> error + (transcript \<times> tally)" where
  "mask_fields [] st = Inr st"
| "mask_fields (field # rest) (masked, pii_found) =
     (case masked field of
        None \<Rightarrow> mask_fields rest (masked, pii_found)
      | Some original_text \<Rightarrow>
          (if truthy original_text
           then (case mask_value original_text of
                   Inl e \<Rightarrow> Inl e
                 | Inr (masked_text, field_pii) \<Rightarrow>
                     (case add_tally field_pii pii_found of
                        Inl e \<Rightarrow> Inl e
                      | Inr pii_found' \<Rightarrow>
                          mask_fields rest (masked(field \<mapsto> masked_text), pii_found')))
           else mask_fields rest (masked, pii_found)))"

definition mask_single_transcript :: "transcript \<Rightarrow> error + (transcript \<times> tally)" where
  "mask_single_transcript transcript =
     (case mask_fields fields_to_mask (transcript, zero_tally) of
        Inl e \<Rightarrow> Inl e
      | Inr (masked, pii_found) \<Rightarrow>
          (case masked ''call_id'' of
             None \<Rightarrow> Inr (masked, pii_found)
           | Some call_id \<Rightarrow>
               (case mask_value call_id of
                  Inl e \<Rightarrow> Inl e
                | Inr (masked_call_id, unused) \<Rightarrow>
                    Inr (masked(''call_id'' \<mapsto> masked_call_id), pii_found))))"

text \<open>
  The loop of \<^verbatim>\<open>mask_data\<close> over the transcripts. Its log line reads
  \<^verbatim>\<open>transcript['call_id']\<close>, a \<^verbatim>\<open>KeyError\<close> when the record has no such key.
\<close>

fun mask_all :: "transcript list \<Rightarrow> transcript list \<times> tally \<Rightarrow> error + (transcript list \<times> tally)" where
  "mask_all [] st = Inr st"
| "mask_all (transcript # rest) (masked_transcripts, pii_stats) =
     (case mask_single_transcript transcript of
        Inl e \<Rightarrow> Inl e
      | Inr (masked, found_pii) \<Rightarrow>
          (case add_tally found_pii pii_stats of
             Inl e \<Rightarrow> Inl e
           | Inr pii_stats' \<Rightarrow>
               (case transcript ''call_id'' of
                  None \<Rightarrow> Inl KeyError
                | Some call_id \<Rightarrow> mask_all rest (masked_transcripts @ [masked], pii_stats'))))"

text \<open>
  \<^verbatim>\<open>mask_data\<close> on the transcripts of the input file. The whole body is inside one
  \<^verbatim>\<open>try\<close>: on any exception nothing is written and the result is \<^verbatim>\<open>False\<close>
  (\<open>None\<close>); otherwise the masked transcripts and the \<^verbatim>\<open>pii_removed\<close> tally are
  written and the result is \<^verbatim>\<open>True\<close>.
\<close>

definition mask_data :: "transcript list \<Rightarrow> (transcript list \<times> tally) option" where
  "mask_data transcripts =
     (case mask_all transcripts ([], zero_tally) of Inl e \<Rightarrow> None | Inr written \<Rightarrow> Some written)"

section \<open>Field normalisation (\<^verbatim>\<open>src/data_cleaner.py\<close>)\<close>

text \<open>The contamination patterns, all substituted with \<^verbatim>\<open>re.IGNORECASE\<close>.\<close>

definition label_tail :: "string \<Rightarrow> regex" where
  \<comment> \<open>\<^verbatim>\<open>\s*LABEL.*$\<close>, for a label such as \<^verbatim>\<open>TRANSCRIPT:\<close>\<close>
  "label_tail label = Seqs [Star Space, Str label, Star Dot, Eos]"

definition word_at_end :: "string \<Rightarrow> regex" where
  \<comment> \<open>\<^verbatim>\<open>\s*WORD\s*$\<close>, for a word such as \<^verbatim>\<open>High\<close>\<close>
  "word_at_end w = Seqs [Star Space, Str w, Star Space, Eos]"

subsection \<open>\<^verbatim>\<open>_clean_severity\<close>\<close>

text \<open>The local \<^verbatim>\<open>severity_clean\<close>: contamination removed, trimmed, title-cased.\<close>

definition severity_clean :: "string \<Rightarrow> string" where
  "severity_clean severity =
     title (strip
       (re_sub True (label_tail ''Category:'') []
         (re_sub True (label_tail ''Agent:'') []
           (re_sub True (label_tail ''TRANSCRIPT:'') [] severity))))"

definition clean_severity :: "string \<Rightarrow> string" where
  "clean_severity severity =
     (if severity = [] then []
      else if contains ''high'' (lower (severity_clean severity)) then ''High''
      else if contains ''medium'' (lower (severity_clean severity)) then ''Medium''
      else if contains ''low'' (lower (severity_clean severity)) then ''Low''
      else if contains ''critical'' (lower (severity_clean severity)) then ''Critical''
      else if severity_clean severity \<noteq> [] then severity_clean severity
      else ''Medium'')"

subsection \<open>\<^verbatim>\<open>_clean_category\<close>\<close>

definition category_mapping :: "(string \<times> string) list" where
  "category_mapping =
     [(''plan change'', ''Plan Change''),
      (''device activation'', ''Device Activation''),
      (''billing dispute'', ''Billing Dispute''),
      (''device purchase'', ''Device Purchase''),
      (''account management'', ''Account Management''),
      (''promotional offers'', ''Promotional Offers''),
      (''data usage tracking'', ''Data Usage Tracking''),
      (''device upgrade'', ''Device Upgrade''),
      (''auto-pay management'', ''Auto-Pay Management''),
      (''auto pay management'', ''Auto-Pay Management''),
      (''sim card activation'', ''SIM Card Activation''),
      (''promotional pricing'', ''Promotional Pricing''),
      (''device return'', ''Device Return''),
      (''data usage alerts'', ''Data Usage Alerts''),
      (''service commands'', ''Service Commands''),
      (''balance inquiry'', ''Balance Inquiry'')]"

text \<open>The local \<^verbatim>\<open>category_clean\<close>: contamination removed and trimmed.\<close>

definition category_clean :: "string \<Rightarrow> string" where
  "category_clean category =
     strip
       (re_sub True (word_at_end ''Low'') []
         (re_sub True (word_at_end ''Medium'') []
           (re_sub True (word_at_end ''High'') []
             (re_sub True (label_tail ''Agent:'') []
               (re_sub True (label_tail ''TRANSCRIPT:'') []
                 (re_sub True (label_tail ''Severity:'') [] category))))))"

text \<open>
  \<^verbatim>\<open>for key, value in category_mapping.items(): if key in category_lower: return value\<close>
\<close>

fun map_category :: "(string \<times> string) list \<Rightarrow> string \<Rightarrow> string option" where
  "map_category [] category_lower = None"
| "map_category ((key, val) # rest) category_lower =
     (if contains key category_lower then Some val else map_category rest category_lower)"

definition clean_category :: "string \<Rightarrow> string" where
  "clean_category category =
     (if category = [] then []
      else (case map_category category_mapping (lower (category_clean category)) of
              Some val \<Rightarrow> val
            | None \<Rightarrow> if category_clean category \<noteq> [] then category_clean category
                      else ''Unknown''))"

section \<open>Transcript parsing (\<^verbatim>\<open>src/transcript_parser.py\<close>)\<close>

subsection \<open>Segmentation: the first half of \<^verbatim>\<open>_parse_text_content\<close>\<close>

definition sep_call_marker :: regex where
  \<comment> \<open>\<^verbatim>\<open>(?i)call\s+tw_\w+_\d+\<close>\<close>
  "sep_call_marker = Seqs [Str ''call'', Plus Space, Str ''tw_'', Plus Word, Lit CHR ''_'', Plus Digit]"

definition sep_tw_marker :: regex where
  \<comment> \<open>\<^verbatim>\<open>tw_\w+_\d+\<close>\<close>
  "sep_tw_marker = Seqs [Str ''tw_'', Plus Word, Lit CHR ''_'', Plus Digit]"

definition sep_section :: regex where
  \<comment> \<open>\<^verbatim>\<open>(?i)section\s+\d+\<close>\<close>
  "sep_section = Seqs [Str ''section'', Plus Space, Plus Digit]"

definition sep_equals :: regex where
  \<comment> \<open>\<^verbatim>\<open>={3,}\<close>\<close>
  "sep_equals = Rep 3 None (Lit CHR ''='')"

definition sep_dashes :: regex where
  \<comment> \<open>\<^verbatim>\<open>-{10,}\<close>\<close>
  "sep_dashes = Rep 10 None (Lit CHR ''-'')"

definition sep_transcript :: regex where
  \<comment> \<open>\<^verbatim>\<open>(?i)transcript\s+\d+\<close>\<close>
  "sep_transcript = Seqs [Str ''transcript'', Plus Space, Plus Digit]"

definition sep_channel_header :: regex where
  \<comment> \<open>\<^verbatim>\<open>\d+\.\s+\w+\s+channel\<close>\<close>
  "sep_channel_header = Seqs [Plus Digit, Lit CHR ''.'', Plus Space, Plus Word, Plus Space, Str ''channel'']"

definition potential_separators :: "regex list" where
  "potential_separators =
     [sep_call_marker, sep_tw_marker, sep_section, sep_equals, sep_dashes, sep_transcript,
      sep_channel_header]"

text \<open>
  \<^verbatim>\<open>[s.strip() for s in test_splits if len(s.strip()) > 300]\<close> for one separator
  pattern, split with \<^verbatim>\<open>re.IGNORECASE\<close>.
\<close>

definition valid_splits :: "regex \<Rightarrow> string \<Rightarrow> string list" where
  "valid_splits pattern content =
     map strip (filter (\<lambda>s. length (strip s) > 300) (re_split True pattern content))"

text \<open>The loop over the separators: a candidate replaces \<^verbatim>\<open>calls\<close> only when it has more pieces.\<close>

fun try_separators :: "regex list \<Rightarrow> string \<Rightarrow> string list \<Rightarrow> string list" where
  "try_separators [] content calls = calls"
| "try_separators (pattern # rest) content calls =
     try_separators rest content
       (if length (valid_splits pattern content) > length calls
        then valid_splits pattern content else calls)"

text \<open>The sections handed to the per-call parser: \<^verbatim>\<open>calls\<close>, or the whole document.\<close>

definition segment_calls :: "string \<Rightarrow> string list" where
  "segment_calls content =
     (if try_separators potential_separators content [] = [] then [content]
      else try_separators potential_separators content [])"

subsection \<open>\<^verbatim>\<open>_extract_call_id\<close>\<close>

definition id_tw :: regex where
  \<comment> \<open>\<^verbatim>\<open>TW_\w+_\d+\<close>\<close>
  "id_tw = Seqs [Str ''TW_'', Plus Word, Lit CHR ''_'', Plus Digit]"

definition id_call :: regex where
  \<comment> \<open>\<^verbatim>\<open>Call\s+(\w+_\w+_\d+)\<close>\<close>
  "id_call = Seqs [Str ''Call'', Plus Space,
     Grp 1 (Seqs [Plus Word, Lit CHR ''_'', Plus Word, Lit CHR ''_'', Plus Digit])]"

definition id_label :: regex where
  \<comment> \<open>\<^verbatim>\<open>ID[:\s]+([A-Z0-9_]+)\<close>\<close>
  "id_label = Seqs [Str ''ID'', Plus (Cls [CChar CHR '':'', CSpace]),
     Grp 1 (Plus (Cls [AZ, d09, CChar CHR ''_'']))]"

definition id_patterns :: "regex list" where
  "id_patterns = [id_tw, id_call, id_label]"

text \<open>
  \<^verbatim>\<open>match.group(n)\<close>: group 0 is the matched text; a group the pattern does not have
  raises \<^verbatim>\<open>IndexError\<close>.
\<close>

fun capture :: "nat \<Rightarrow> captures \<Rightarrow> error + string" where
  "capture n [] = Inl IndexError"
| "capture n ((k, t) # g) = (if k = n then Inr t else capture n g)"

fun group :: "nat \<Rightarrow> string \<times> captures \<Rightarrow> error + string" where
  "group 0 (m, g) = Inr m"
| "group (Suc n) (m, g) = capture (Suc n) g"

text \<open>The loop over the id patterns: the first pattern found in the text decides.\<close>

fun first_id_match :: "regex list \<Rightarrow> string \<Rightarrow> (error + string) option" where
  "first_id_match [] text = None"
| "first_id_match (pattern # rest) text =
     (case re_search True pattern text of
        None \<Rightarrow> first_id_match rest text
      | Some m \<Rightarrow>
          Some (if contains ''TW_'' (upper (fst m)) then group 0 m
                else (case group 1 m of Inl e \<Rightarrow> Inl e | Inr g1 \<Rightarrow> Inr (''TW_'' @ g1))))"

text \<open>\<^verbatim>\<open>f"{call_number:03d}"\<close>: decimal digits, padded with zeros to three.\<close>

fun digits :: "nat \<Rightarrow> string" where
  "digits n = (if n < 10 then [char_of (48 + n)] else digits (n div 10) @ [char_of (48 + n mod 10)])"

declare digits.simps [simp del]

definition pad3 :: "nat \<Rightarrow> string" where
  "pad3 n = replicate (3 - length (digits n)) CHR ''0'' @ digits n"

definition extract_call_id :: "string \<Rightarrow> nat \<Rightarrow> error + string" where
  "extract_call_id text call_number =
     (case first_id_match id_patterns text of
        Some r \<Rightarrow> r
      | None \<Rightarrow>
          Inr (if contains ''tasora'' (lower text) then ''TW_TASORA_'' @ pad3 call_number
               else if contains ''web'' (lower text) \<or> contains ''portal'' (lower text)
                 then ''TW_WEB_'' @ pad3 call_number
               else if contains ''app'' (lower text) \<or> contains ''mobile'' (lower text)
                 then ''TW_APP_'' @ pad3 call_number
               else if contains ''target'' (lower text) then ''TW_TARGET_'' @ pad3 call_number
               else if contains ''sms'' (lower text) \<or> contains ''bot'' (lower text)
                 then ''TW_SMS_'' @ pad3 call_number
               else ''TW_UNKNOWN_'' @ pad3 call_number))"

subsection \<open>\<^verbatim>\<open>_extract_channel\<close>\<close>

definition extract_channel :: "string \<Rightarrow> string \<Rightarrow> string" where
  "extract_channel text call_id =
     (if contains ''TASORA'' (upper call_id) \<or> contains ''tasora'' (lower text) then ''TASORA''
      else if contains ''WEB'' (upper call_id) \<or> contains ''web portal'' (lower text) \<or>
              contains ''website'' (lower text) then ''Web Portal''
      else if contains ''APP'' (upper call_id) \<or> contains ''mobile app'' (lower text) \<or>
              contains ''application'' (lower text) then ''Mobile App''
      else if contains ''TARGET'' (upper call_id) \<or> contains ''target'' (lower text) then ''Target''
      else if contains ''SMS'' (upper call_id) \<or> contains ''sms'' (lower text) \<or>
              contains ''bot'' (lower text) \<or> contains ''ivr'' (lower text) then ''SMS/Bot/IVR''
      else ''Unknown'')"

text \<open>
  The channel of a section as \<^verbatim>\<open>_parse_single_call\<close> computes it:
  \<^verbatim>\<open>call_id = self._extract_call_id(text, call_number)\<close>, then
  \<^verbatim>\<open>channel = self._extract_channel(text, call_id)\<close>.
\<close>

definition section_channel :: "string \<Rightarrow> nat \<Rightarrow> error + string" where
  "section_channel text call_number =
     (case extract_call_id text call_number of
        Inl e \<Rightarrow> Inl e
      | Inr call_id \<Rightarrow> Inr (extract_channel text call_id))"

subsection \<open>\<^verbatim>\<open>_extract_field\<close>\<close>

definition field_pattern :: "string \<Rightarrow> regex" where
  \<comment> \<open>\<^verbatim>\<open>rf'{pattern}\s*([^\n]+)'\<close>, for a label such as \<^verbatim>\<open>date:\<close>\<close>
  "field_pattern label = Seqs [Str label, Star Space, Grp 1 (Plus (NCls [CChar CHR 0x0A]))]"

text \<open>The loop over the labels: the first label found in the text gives the value.\<close>

fun extract_field :: "string \<Rightarrow> string list \<Rightarrow> error + string" where
  "extract_field text [] = Inr []"
| "extract_field text (pattern # rest) =
     (case re_search True (field_pattern pattern) text of
        None \<Rightarrow> extract_field text rest
      | Some m \<Rightarrow> (case group 1 m of Inl e \<Rightarrow> Inl e | Inr g1 \<Rightarrow> Inr (strip g1)))"

subsection \<open>\<^verbatim>\<open>_extract_conversation\<close>\<close>

definition section_end :: regex where
  \<comment> \<open>\<^verbatim>\<open>(?=resolution:|impact:|root cause:|$)\<close>\<close>
  "section_end = Look (Alts [Str ''resolution:'', Str ''impact:'', Str ''root cause:'', Eos])"

definition conv_transcript :: regex where
  \<comment> \<open>\<^verbatim>\<open>(?i)transcript:(.+?)(?=resolution:|impact:|root cause:|$)\<close> with \<^verbatim>\<open>re.DOTALL\<close>\<close>
  "conv_transcript = Seqs [Str ''transcript:'', Grp 1 (RepLazy 1 None AnyChar), section_end]"

definition conv_conversation :: regex where
  \<comment> \<open>\<^verbatim>\<open>(?i)conversation:(.+?)(?=resolution:|impact:|root cause:|$)\<close> with \<^verbatim>\<open>re.DOTALL\<close>\<close>
  "conv_conversation = Seqs [Str ''conversation:'', Grp 1 (RepLazy 1 None AnyChar), section_end]"

definition conv_agent :: regex where
  \<comment> \<open>\<^verbatim>\<open>(agent:.+?)(?=resolution:|impact:|root cause:|$)\<close> with \<^verbatim>\<open>re.DOTALL\<close>\<close>
  "conv_agent = Seqs [Grp 1 (Seqs [Str ''agent:'', RepLazy 1 None AnyChar]), section_end]"

definition conversation_patterns :: "regex list" where
  "conversation_patterns = [conv_transcript, conv_conversation, conv_agent]"

definition label_prefix :: regex where
  \<comment> \<open>\<^verbatim>\<open>^(transcript|conversation):\s*\<close>\<close>
  "label_prefix = Seqs [Bos, Grp 1 (Alts [Str ''transcript'', Str ''conversation'']), Lit CHR '':'',
     Star Space]"

definition agent_customer_pattern :: regex where
  \<comment> \<open>\<^verbatim>\<open>(agent:.*?customer:.*?)(?=\n\s*[A-Z][A-Z]:|$)\<close> with \<^verbatim>\<open>re.DOTALL\<close>\<close>
  "agent_customer_pattern =
     Seqs [Grp 1 (Seqs [Str ''agent:'', RepLazy 0 None AnyChar, Str ''customer:'',
                        RepLazy 0 None AnyChar]),
           Look (Alts [Seqs [Lit CHR 0x0A, Star Space, Cls [AZ], Cls [AZ], Lit CHR '':''], Eos])]"

text \<open>The loop over the conversation patterns: the first pattern found in the text decides.\<close>

fun first_conversation :: "regex list \<Rightarrow> string \<Rightarrow> (error + string) option" where
  "first_conversation [] text = None"
| "first_conversation (pattern # rest) text =
     (case re_search True pattern text of
        None \<Rightarrow> first_conversation rest text
      | Some m \<Rightarrow>
          Some (case group 1 m of
                  Inl e \<Rightarrow> Inl e
                | Inr g1 \<Rightarrow> Inr (re_sub True label_prefix [] (strip g1))))"

text \<open>
  \<^verbatim>\<open>re.findall\<close> for a pattern with one group: the text of the group for every match,
  the empty string where the group took no part in the match.
\<close>

definition re_findall_group :: "bool \<Rightarrow> regex \<Rightarrow> string \<Rightarrow> string list" where
  "re_findall_group ic r s =
     map (\<lambda>(gap, m, g). case capture 1 g of Inl e \<Rightarrow> [] | Inr t \<Rightarrow> t) (fst (scan ic r None s))"

text \<open>\<^verbatim>\<open>sep.join(parts)\<close>\<close>

fun join :: "string \<Rightarrow> string list \<Rightarrow> string" where
  "join sep [] = []"
| "join sep [x] = x"
| "join sep (x # y # ys) = x @ sep @ join sep (y # ys)"

definition extract_conversation :: "string \<Rightarrow> error + string" where
  "extract_conversation text =
     (case first_conversation conversation_patterns text of
        Some r \<Rightarrow> r
      | None \<Rightarrow>
          Inr (if re_findall_group True agent_customer_pattern text \<noteq> []
               then join [CHR 0x0A, CHR 0x0A] (re_findall_group True agent_customer_pattern text)
               else if length text > 1000 then take 1000 text @ ''...'' else text))"

subsection \<open>\<^verbatim>\<open>_parse_single_call\<close>\<close>

text \<open>An exception of one step is the exception of the whole.\<close>

definition and_then :: "error + 'a \<Rightarrow> ('a \<Rightarrow> error + 'b) \<Rightarrow> error + 'b" where
  "and_then r f = (case r of Inl e \<Rightarrow> Inl e | Inr x \<Rightarrow> f x)"

text \<open>The parsed call is a dictionary, its keys in the order of the source.\<close>

type_synonym parsed_call = "(string \<times> jvalue) list"

definition parse_single_call :: "string \<Rightarrow> nat \<Rightarrow> error + parsed_call" where
  "parse_single_call text call_number =
     and_then (extract_call_id text call_number) (\<lambda>call_id.
     and_then (extract_field text [''date:'', ''timestamp:'', ''time:'']) (\<lambda>date.
     and_then (extract_field text [''category:'', ''issue type:'', ''type:'', ''problem:'']) (\<lambda>category.
     and_then (extract_field text [''severity:'', ''priority:'', ''level:'']) (\<lambda>severity.
     and_then (extract_field text [''journey type:'', ''journey:'', ''type:'']) (\<lambda>journey_type.
     and_then (extract_conversation text) (\<lambda>conversation.
     and_then (extract_field text [''resolution:'', ''solution:'', ''fix:'', ''resolved:'']) (\<lambda>resolution.
     and_then (extract_field text [''impact:'', ''effect:'', ''consequence:'']) (\<lambda>impact.
     and_then (extract_field text [''root cause:'', ''cause:'', ''reason:'']) (\<lambda>root_cause.
       Inr [(''call_id'', JStr call_id),
            (''channel'', JStr (extract_channel text call_id)),
            (''date'', JStr date),
            (''category'', JStr category),
            (''severity'', JStr severity),
            (''journey_type'', JStr journey_type),
            (''transcript'', JStr conversation),
            (''resolution'', JStr resolution),
            (''impact'', JStr impact),
            (''root_cause'', JStr root_cause),
            (''raw_text_length'', JInt (int (length text)))])))))))))"

subsection \<open>The section loop of \<^verbatim>\<open>_parse_text_content\<close>, and \<^verbatim>\<open>parse_pdf\<close>\<close>

text \<open>
  The loop \<^verbatim>\<open>for i, call_text in enumerate(calls)\<close>: a section of fewer than 100
  characters when trimmed is skipped, every other section is parsed with the number
  \<^verbatim>\<open>i + 1\<close>, and a parsed call that is not empty is appended. No handler surrounds the
  call of \<^verbatim>\<open>_parse_single_call\<close>: its exception leaves the loop.
\<close>

fun parse_calls :: "string list \<Rightarrow> nat \<Rightarrow> parsed_call list \<Rightarrow> error + parsed_call list" where
  "parse_calls [] i parsed_calls = Inr parsed_calls"
| "parse_calls (call_text # rest) i parsed_calls =
     (if length (strip call_text) < 100 then parse_calls rest (Suc i) parsed_calls
      else (case parse_single_call call_text (i + 1) of
              Inl e \<Rightarrow> Inl e
            | Inr parsed_call \<Rightarrow>
                parse_calls rest (Suc i)
                  (if parsed_call \<noteq> [] then parsed_calls @ [parsed_call] else parsed_calls)))"

definition parse_text_content :: "string \<Rightarrow> error + parsed_call list" where
  "parse_text_content content = parse_calls (segment_calls content) 0 []"

text \<open>
  \<^verbatim>\<open>parse_pdf\<close> from the text extracted from the file: the empty list for an empty
  text, and the empty list when anything raises an exception.
\<close>

definition parse_pdf :: "string \<Rightarrow> parsed_call list" where
  "parse_pdf pdf_text =
     (if pdf_text = [] then []
      else (case parse_text_content pdf_text of Inl e \<Rightarrow> [] | Inr parsed_calls \<Rightarrow> parsed_calls))"

subsection \<open>The groups a pattern is certain to capture\<close>

text \<open>
  \<open>sets_group n r\<close> holds when every match of \<open>r\<close> passes through a group numbered
  \<open>n\<close>, so that \<^verbatim>\<open>match.group(n)\<close> cannot fail.
\<close>

fun sets_group :: "nat \<Rightarrow> regex \<Rightarrow> bool" where
  "sets_group n (Grp m r) = (m = n \<or> sets_group n r)"
| "sets_group n (Seq a b) = (sets_group n a \<or> sets_group n b)"
| "sets_group n (Alt a b) = (sets_group n a \<and> sets_group n b)"
| "sets_group n (Rep lo hi r) = (0 < lo \<and> sets_group n r)"
| "sets_group n (RepLazy lo hi r) = (0 < lo \<and> sets_group n r)"
| "sets_group n r = False"

section \<open>Reference descriptions\<close>

text \<open>
  Tables that restate, as plain lists, the order in which the code above tests its cases.
  The theorems compare the code with a first-match search through them.
\<close>

text \<open>The severity keywords in the order in which \<^verbatim>\<open>_clean_severity\<close> tests them.\<close>

definition severity_priority :: "(string \<times> string) list" where
  "severity_priority =
     [(''high'', ''High''), (''medium'', ''Medium''), (''low'', ''Low''), (''critical'', ''Critical'')]"

text \<open>
  The channels in the order in which \<^verbatim>\<open>_extract_channel\<close> tests them: the token
  looked for in the upper-cased call id, the keywords looked for in the lower-cased text,
  and the channel name.
\<close>

definition channel_rules :: "(string \<times> string list \<times> string) list" where
  "channel_rules =
     [(''TASORA'', [''tasora''], ''TASORA''),
      (''WEB'', [''web portal'', ''website''], ''Web Portal''),
      (''APP'', [''mobile app'', ''application''], ''Mobile App''),
      (''TARGET'', [''target''], ''Target''),
      (''SMS'', [''sms'', ''bot'', ''ivr''], ''SMS/Bot/IVR'')]"

text \<open>The valid pieces of every separator, in the order of the separators.\<close>

definition candidates :: "string \<Rightarrow> string list list" where
  "candidates content = map (\<lambda>pattern. valid_splits pattern content) potential_separators"

section \<open>Example records\<close>

text \<open>Records on which the theorems below are tried.\<close>

definition example_record :: transcript where
  "example_record =
     [''call_id'' \<mapsto> JStr ''TW_WEB_001'', ''channel'' \<mapsto> JStr ''Web Portal'',
      ''transcript'' \<mapsto> JStr ''Call me at 555-123-4567'', ''raw_text_length'' \<mapsto> JInt 23]"

text \<open>A record whose \<^verbatim>\<open>transcript\<close> is a number, as a JSON file may hold it.\<close>

definition example_number_record :: transcript where
  "example_number_record = [''call_id'' \<mapsto> JStr ''TW_WEB_002'', ''transcript'' \<mapsto> JInt 42]"

text \<open>A record whose \<^verbatim>\<open>call_id\<close> looks like a phone number.\<close>

definition example_digits_id_record :: transcript where
  "example_digits_id_record =
     [''call_id'' \<mapsto> JStr ''5551234567'', ''transcript'' \<mapsto> JStr ''Call me at 555-123-4567'']"

section \<open>Example documents\<close>

text \<open>A short section with a category, a severity and one line of an agent.\<close>

definition example_section :: string where
  "example_section =
     ''Category: Billing'' @ [CHR 0x0A] @ ''Severity: High'' @ [CHR 0x0A] @ ''Agent: Hi there''"

text \<open>A document of two blocks of \<open>k\<close> letters with the separator \<^verbatim>\<open>===\<close> between them.\<close>

definition block_document :: "nat \<Rightarrow> string" where
  "block_document k = replicate k CHR ''a'' @ ''==='' @ replicate k CHR ''a''"

section \<open>Evaluation rules\<close>

text \<open>
  Rules that let the simplifier run the definitions on concrete texts: the character
  classes read off the bits of a character, and the repetition of a one-character pattern
  unfolded without measuring the remaining text.
\<close>

lemma is_digit_Char:
  "is_digit (Char b0 b1 b2 b3 b4 b5 b6 b7) =
     (b4 \<and> b5 \<and> \<not> b6 \<and> \<not> b7 \<and> (\<not> b3 \<or> (\<not> b1 \<and> \<not> b2)))"
  by (cases b0; cases b1; cases b2; cases b3; cases b4; cases b5; cases b6; cases b7;
      simp add: is_digit_def)

lemma is_upper_Char:
  "is_upper (Char b0 b1 b2 b3 b4 b5 b6 b7) =
     (\<not> b7 \<and> b6 \<and> \<not> b5 \<and> (b0 \<or> b1 \<or> b2 \<or> b3 \<or> b4) \<and>
      (\<not> b4 \<or> \<not> b3 \<or> (\<not> b2 \<and> (\<not> b1 \<or> \<not> b0))))"
  by (cases b0; cases b1; cases b2; cases b3; cases b4; cases b5; cases b6; cases b7;
      simp add: is_upper_def)

lemma is_lower_Char:
  "is_lower (Char b0 b1 b2 b3 b4 b5 b6 b7) =
     (\<not> b7 \<and> b6 \<and> b5 \<and> (b0 \<or> b1 \<or> b2 \<or> b3 \<or> b4) \<and>
      (\<not> b4 \<or> \<not> b3 \<or> (\<not> b2 \<and> (\<not> b1 \<or> \<not> b0))))"
  by (cases b0; cases b1; cases b2; cases b3; cases b4; cases b5; cases b6; cases b7;
      simp add: is_lower_def)

lemma is_space_Char:
  "is_space (Char b0 b1 b2 b3 b4 b5 b6 b7) =
     (\<not> b7 \<and> \<not> b6 \<and>
      ((\<not> b5 \<and> \<not> b4 \<and> b3 \<and> ((\<not> b2 \<and> (b1 \<or> b0)) \<or> (b2 \<and> \<not> b1))) \<or>
       (\<not> b5 \<and> b4 \<and> b3 \<and> b2) \<or>
       (b5 \<and> \<not> b4 \<and> \<not> b3 \<and> \<not> b2 \<and> \<not> b1 \<and> \<not> b0)))"
  by (cases b0; cases b1; cases b2; cases b3; cases b4; cases b5; cases b6; cases b7;
      simp add: is_space_def)

lemma lower_char_Char:
  "lower_char (Char b0 b1 b2 b3 b4 b5 b6 b7) =
     (if is_upper (Char b0 b1 b2 b3 b4 b5 b6 b7) then Char b0 b1 b2 b3 b4 True b6 b7
      else Char b0 b1 b2 b3 b4 b5 b6 b7)"
  by (cases b0; cases b1; cases b2; cases b3; cases b4; cases b5; cases b6; cases b7;
      simp add: lower_char_def is_upper_def char_of_eq_iff)

lemma upper_char_Char:
  "upper_char (Char b0 b1 b2 b3 b4 b5 b6 b7) =
     (if is_lower (Char b0 b1 b2 b3 b4 b5 b6 b7) then Char b0 b1 b2 b3 b4 False b6 b7
      else Char b0 b1 b2 b3 b4 b5 b6 b7)"
  by (cases b0; cases b1; cases b2; cases b3; cases b4; cases b5; cases b6; cases b7;
      simp add: upper_char_def is_lower_def char_of_eq_iff)

lemma item_has_AZ: "item_has AZ c = is_upper c"
  by (simp add: AZ_def is_upper_def)

lemma item_has_az: "item_has az c = is_lower c"
  by (simp add: az_def is_lower_def)

lemma item_has_d09: "item_has d09 c = is_digit c"
  by (simp add: d09_def is_digit_def)

lemma ends_Rep_Lit_Nil:
  "ends ic (Rep lo hi (Lit a)) (prev, [], g) = (if lo = 0 then [(prev, [], g)] else [])"
  by simp

lemma ends_Rep_Lit_Cons:
  "ends ic (Rep lo hi (Lit a)) (prev, c # cs, g) =
     (if hi = Some 0 then []
      else if items_have ic [CChar a] c
           then ends ic (Rep (lo - 1) (dec_hi hi) (Lit a)) (Some c, cs, g) else [])
     @ (if lo = 0 then [(prev, c # cs, g)] else [])"
  by simp

lemma ends_Rep_Cls_Nil:
  "ends ic (Rep lo hi (Cls its)) (prev, [], g) = (if lo = 0 then [(prev, [], g)] else [])"
  by simp

lemma ends_Rep_Cls_Cons:
  "ends ic (Rep lo hi (Cls its)) (prev, c # cs, g) =
     (if hi = Some 0 then []
      else if items_have ic its c
           then ends ic (Rep (lo - 1) (dec_hi hi) (Cls its)) (Some c, cs, g) else [])
     @ (if lo = 0 then [(prev, c # cs, g)] else [])"
  by simp

lemma ends_Rep_NCls_Nil:
  "ends ic (Rep lo hi (NCls its)) (prev, [], g) = (if lo = 0 then [(prev, [], g)] else [])"
  by simp

lemma ends_Rep_NCls_Cons:
  "ends ic (Rep lo hi (NCls its)) (prev, c # cs, g) =
     (if hi = Some 0 then []
      else if items_have ic its c then []
           else ends ic (Rep (lo - 1) (dec_hi hi) (NCls its)) (Some c, cs, g))
     @ (if lo = 0 then [(prev, c # cs, g)] else [])"
  by simp

lemma ends_Rep_Dot_Nil:
  "ends ic (Rep lo hi Dot) (prev, [], g) = (if lo = 0 then [(prev, [], g)] else [])"
  by simp

lemma ends_Rep_Dot_Cons:
  "ends ic (Rep lo hi Dot) (prev, c # cs, g) =
     (if hi = Some 0 then []
      else if c = CHR 0x0A then []
           else ends ic (Rep (lo - 1) (dec_hi hi) Dot) (Some c, cs, g))
     @ (if lo = 0 then [(prev, c # cs, g)] else [])"
  by simp

lemma ends_RepLazy_NCls_Nil:
  "ends ic (RepLazy lo hi (NCls its)) (prev, [], g) = (if lo = 0 then [(prev, [], g)] else [])"
  by simp

lemma ends_RepLazy_NCls_Cons:
  "ends ic (RepLazy lo hi (NCls its)) (prev, c # cs, g) =
     (if lo = 0 then [(prev, c # cs, g)] else [])
     @ (if hi = Some 0 then []
        else if items_have ic its c then []
             else ends ic (RepLazy (lo - 1) (dec_hi hi) (NCls its)) (Some c, cs, g))"
  by simp

lemmas ends_Rep_Seq = ends.simps(12) [where r = "Seq a b" for a b]
lemmas ends_Rep_Alt = ends.simps(12) [where r = "Alt a b" for a b]
lemmas ends_Rep_Grp = ends.simps(12) [where r = "Grp n a" for n a]

lemma length_Cons_Suc: "length (x # xs) = Suc (length xs)"
  by simp

lemma consumed_Nil: "consumed [] t = []"
  by (simp add: consumed_def)

lemma consumed_Cons:
  "consumed (c # cs) t = (if length t < Suc (length cs) then c # consumed cs t else [])"
  by (simp add: consumed_def Suc_diff_le)

lemmas ends_eval =
  ends.simps(1-11) ends.simps(13-16) ends.simps(18)
  ends_RepLazy_NCls_Nil ends_RepLazy_NCls_Cons
  ends_Rep_Lit_Nil ends_Rep_Lit_Cons ends_Rep_Cls_Nil ends_Rep_Cls_Cons
  ends_Rep_NCls_Nil ends_Rep_NCls_Cons ends_Rep_Dot_Nil ends_Rep_Dot_Cons
  ends_Rep_Seq ends_Rep_Alt ends_Rep_Grp

lemmas char_eval =
  is_digit_Char is_upper_Char is_lower_Char is_space_Char lower_char_Char upper_char_Char
  item_has_AZ item_has_az item_has_d09 item_has.simps is_word_def items_have_def at_boundary_def

lemmas logic_eval =
  simp_thms if_True if_False list.case prod.case option.case sum.case list.map concat.simps
  append.simps list_ex_Nil_iff list_ex_Cons_iff list.inject char.inject option.inject
  prod.inject sum.inject list.distinct option.distinct sum.distinct fst_conv snd_conv HOL.refl
  length_Cons_Suc list.size(3) Suc_less_eq eval_nat_numeral BitM.simps One_nat_def
  diff_Suc_Suc minus_nat.diff_0 diff_0_eq_0 nat.distinct nat.inject zero_less_Suc not_less_zero
  plus_nat.add_0 add_Suc Nat.add_0_right add_Suc_right

lemmas regex_eval =
  ends_eval char_eval logic_eval dec_hi.simps Seqs.simps Str.simps Alts.simps
  Star_def Plus_def Opt_def Times_def AnyChar_def Digit_def Space_def Word_def
  consumed_Nil consumed_Cons skip.simps push.simps scan.simps
  re_sub_def re_findall_def re_split_def re_search_def

lemmas mask_eval =
  phone_dashes_def phone_parens_def phone_dots_def phone_plain_def email_pattern_def
  account_digits_def account_alnum_def imei_pattern_def credit_card_pattern_def ssn_pattern_def
  name_labelled_def name_before_verb_def street_address_def zip_pattern_def label_sep_def
  sim_number_pattern_def activation_code_pattern_def port_request_pattern_def
  trade_in_pattern_def order_confirmation_pattern_def billing_address_pattern_def
  zip_code_pattern_def pii_patterns_def replacements_def telecom_patterns_def
  mask_text_def mask_categories.simps mask_patterns.simps add_count.simps lookup.simps
  mask_telecom_specific_def mask_telecom_from.simps zero_tally_def

lemmas string_eval =
  contains.simps starts_with.simps lower_def upper_def strip_def dropWhile.simps rev.simps
  title_def title_from.simps

lemmas cleaner_eval =
  label_tail_def word_at_end_def severity_clean_def clean_severity_def category_clean_def
  clean_category_def category_mapping_def map_category.simps

lemmas parser_eval =
  id_tw_def id_call_def id_label_def id_patterns_def group.simps capture.simps
  first_id_match.simps extract_call_id_def extract_channel_def section_channel_def

lemmas record_eval =
  mask_single_transcript_def fields_to_mask_def mask_fields.simps mask_value.simps truthy.simps
  add_tally.simps mask_all.simps mask_data_def fun_upd_apply jvalue.inject jvalue.distinct
  jvalue.case
  example_record_def example_number_record_def example_digits_id_record_def

lemmas separator_defs =
  sep_call_marker_def sep_tw_marker_def sep_section_def sep_equals_def sep_dashes_def
  sep_transcript_def sep_channel_header_def

lemmas weak_congs = if_weak_cong list.case_cong_weak option.case_cong_weak prod.case_cong_weak
        sum.case_cong_weak

lemmas extraction_eval =
  field_pattern_def extract_field.simps section_end_def conv_transcript_def
  conv_conversation_def conv_agent_def conversation_patterns_def label_prefix_def
  agent_customer_pattern_def first_conversation.simps re_findall_group_def join.simps
  extract_conversation_def example_section_def

section \<open>Properties of the matcher\<close>

text \<open>
  A match ends at a suffix of the text it started from, and never forgets a group it has
  captured.
\<close>

lemma ends_Rep_member:
  assumes "x \<in> set (ends ic (Rep lo hi r) (prev, s, g))" and "x \<noteq> (prev, s, g)"
  obtains p t h where "hi \<noteq> Some 0" "(p, t, h) \<in> set (ends ic r (prev, s, g))"
    "length t < length s" "x \<in> set (ends ic (Rep (lo - 1) (dec_hi hi) r) (p, t, h))"
  using assms
  by (subst (asm) ends.simps(12)) (auto simp del: ends.simps split: if_splits)

lemma ends_RepLazy_member:
  assumes "x \<in> set (ends ic (RepLazy lo hi r) (prev, s, g))" and "x \<noteq> (prev, s, g)"
  obtains p t h where "hi \<noteq> Some 0" "(p, t, h) \<in> set (ends ic r (prev, s, g))"
    "length t < length s" "x \<in> set (ends ic (RepLazy (lo - 1) (dec_hi hi) r) (p, t, h))"
  using assms
  by (subst (asm) ends.simps(17)) (auto simp del: ends.simps split: if_splits)

lemma ends_Seq_member:
  assumes "x \<in> set (ends ic (Seq a b) cur)"
  obtains y where "y \<in> set (ends ic a cur)" "x \<in> set (ends ic b y)"
  using assms by (auto simp del: ends.simps(12) ends.simps(17))


lemma ends_suffix:
  "x \<in> set (ends ic r cur) \<Longrightarrow> \<exists>u. fst (snd cur) = u @ fst (snd x)"
proof (induction ic r cur arbitrary: x rule: ends.induct)
  case (10 ic a b cur)
  from "10.prems" obtain y where y: "y \<in> set (ends ic a cur)" and x: "x \<in> set (ends ic b y)"
    by (rule ends_Seq_member)
  from "10.IH"(1) [OF y] obtain u where u: "fst (snd cur) = u @ fst (snd y)" by blast
  from "10.IH"(2) [OF y x] obtain v where "fst (snd y) = v @ fst (snd x)" by blast
  then show ?case using u by (intro exI [of _ "u @ v"]) simp
next
  case (12 ic lo hi r prev s g)
  show ?case
  proof (cases "x = (prev, s, g)")
    case True
    then show ?thesis by (intro exI [of _ "[]"]) simp
  next
    case False
    with "12.prems" obtain p t h where hi: "hi \<noteq> Some 0"
      and y: "(p, t, h) \<in> set (ends ic r (prev, s, g))" and lt: "length t < length s"
      and x: "x \<in> set (ends ic (Rep (lo - 1) (dec_hi hi) r) (p, t, h))"
      by (rule ends_Rep_member)
    from "12.IH"(1) [OF hi y] obtain u where u: "s = u @ t" by auto
    from "12.IH"(2) [OF hi y refl refl lt x] obtain v where "t = v @ fst (snd x)" by auto
    then show ?thesis using u by (intro exI [of _ "u @ v"]) simp
  qed
next
  case (17 ic lo hi r prev s g)
  show ?case
  proof (cases "x = (prev, s, g)")
    case True
    then show ?thesis by (intro exI [of _ "[]"]) simp
  next
    case False
    with "17.prems" obtain p t h where hi: "hi \<noteq> Some 0"
      and y: "(p, t, h) \<in> set (ends ic r (prev, s, g))" and lt: "length t < length s"
      and x: "x \<in> set (ends ic (RepLazy (lo - 1) (dec_hi hi) r) (p, t, h))"
      by (rule ends_RepLazy_member)
    from "17.IH"(1) [OF hi y] obtain u where u: "s = u @ t" by auto
    from "17.IH"(2) [OF hi y refl refl lt x] obtain v where "t = v @ fst (snd x)" by auto
    then show ?thesis using u by (intro exI [of _ "u @ v"]) simp
  qed
qed (auto simp del: ends.simps(12) ends.simps(17) split: if_splits)

lemma ends_keeps_group:
  "x \<in> set (ends ic r cur) \<Longrightarrow> n \<in> fst ` set (snd (snd cur)) \<Longrightarrow> n \<in> fst ` set (snd (snd x))"
proof (induction ic r cur arbitrary: x rule: ends.induct)
  case (10 ic a b cur)
  from "10.prems"(1) obtain y where y: "y \<in> set (ends ic a cur)" and x: "x \<in> set (ends ic b y)"
    by (rule ends_Seq_member)
  show ?case using "10.IH"(2) [OF y x] "10.IH"(1) [OF y] "10.prems"(2) by blast
next
  case (12 ic lo hi r prev s g)
  show ?case
  proof (cases "x = (prev, s, g)")
    case True
    then show ?thesis using "12.prems"(2) by simp
  next
    case False
    with "12.prems"(1) obtain p t h where hi: "hi \<noteq> Some 0"
      and y: "(p, t, h) \<in> set (ends ic r (prev, s, g))" and lt: "length t < length s"
      and x: "x \<in> set (ends ic (Rep (lo - 1) (dec_hi hi) r) (p, t, h))"
      by (rule ends_Rep_member)
    have "n \<in> fst ` set h" using "12.IH"(1) [OF hi y] "12.prems"(2) by simp
    then show ?thesis using "12.IH"(2) [OF hi y refl refl lt x] by simp
  qed
next
  case (17 ic lo hi r prev s g)
  show ?case
  proof (cases "x = (prev, s, g)")
    case True
    then show ?thesis using "17.prems"(2) by simp
  next
    case False
    with "17.prems"(1) obtain p t h where hi: "hi \<noteq> Some 0"
      and y: "(p, t, h) \<in> set (ends ic r (prev, s, g))" and lt: "length t < length s"
      and x: "x \<in> set (ends ic (RepLazy (lo - 1) (dec_hi hi) r) (p, t, h))"
      by (rule ends_RepLazy_member)
    have "n \<in> fst ` set h" using "17.IH"(1) [OF hi y] "17.prems"(2) by simp
    then show ?thesis using "17.IH"(2) [OF hi y refl refl lt x] by simp
  qed
qed (auto simp del: ends.simps(12) ends.simps(17) split: if_splits)

lemma ends_Rep_member_positive:
  assumes "x \<in> set (ends ic (Rep lo hi r) (prev, s, g))" and "0 < lo"
  obtains p t h where "hi \<noteq> Some 0" "(p, t, h) \<in> set (ends ic r (prev, s, g))"
    "length t < length s" "x \<in> set (ends ic (Rep (lo - 1) (dec_hi hi) r) (p, t, h))"
  using assms
  by (subst (asm) ends.simps(12)) (auto simp del: ends.simps split: if_splits)

lemma ends_RepLazy_member_positive:
  assumes "x \<in> set (ends ic (RepLazy lo hi r) (prev, s, g))" and "0 < lo"
  obtains p t h where "hi \<noteq> Some 0" "(p, t, h) \<in> set (ends ic r (prev, s, g))"
    "length t < length s" "x \<in> set (ends ic (RepLazy (lo - 1) (dec_hi hi) r) (p, t, h))"
  using assms
  by (subst (asm) ends.simps(17)) (auto simp del: ends.simps split: if_splits)

lemma ends_sets_group:
  "sets_group n r \<Longrightarrow> x \<in> set (ends ic r cur) \<Longrightarrow> n \<in> fst ` set (snd (snd x))"
proof (induction ic r cur arbitrary: x rule: ends.induct)
  case (10 ic a b cur)
  from "10.prems"(2) obtain y where y: "y \<in> set (ends ic a cur)" and x: "x \<in> set (ends ic b y)"
    by (rule ends_Seq_member)
  show ?case
  proof (cases "sets_group n a")
    case True
    then have "n \<in> fst ` set (snd (snd y))" using "10.IH"(1) y by blast
    then show ?thesis using ends_keeps_group [OF x] by blast
  next
    case False
    then have "sets_group n b" using "10.prems"(1) by simp
    then show ?thesis using "10.IH"(2) [OF y _ x] by blast
  qed
next
  case (11 ic a b cur)
  then show ?case by (cases x) (auto simp del: ends.simps(12) ends.simps(17))
next
  case (12 ic lo hi r prev s g)
  from "12.prems"(1) have lo: "0 < lo" and r: "sets_group n r" by simp_all
  from "12.prems"(2) lo obtain p t h where hi: "hi \<noteq> Some 0"
    and y: "(p, t, h) \<in> set (ends ic r (prev, s, g))"
    and x: "x \<in> set (ends ic (Rep (lo - 1) (dec_hi hi) r) (p, t, h))"
    by (rule ends_Rep_member_positive)
  have "n \<in> fst ` set h" using "12.IH"(1) [OF hi r y] by simp
  then show ?case using ends_keeps_group [OF x] by simp
next
  case (13 ic m r prev s g)
  then show ?case by (cases x) (auto simp del: ends.simps(12) ends.simps(17))
next
  case (17 ic lo hi r prev s g)
  from "17.prems"(1) have lo: "0 < lo" and r: "sets_group n r" by simp_all
  from "17.prems"(2) lo obtain p t h where hi: "hi \<noteq> Some 0"
    and y: "(p, t, h) \<in> set (ends ic r (prev, s, g))"
    and x: "x \<in> set (ends ic (RepLazy (lo - 1) (dec_hi hi) r) (p, t, h))"
    by (rule ends_RepLazy_member_positive)
  have "n \<in> fst ` set h" using "17.IH"(1) [OF hi r y] by simp
  then show ?case using ends_keeps_group [OF x] by simp
qed simp_all

lemma in_skip:
  "(gap, m, g) \<in> set (fst (skip c res)) \<Longrightarrow> \<exists>gap'. (gap', m, g) \<in> set (fst res)"
  by (cases "(c, res)" rule: skip.cases) auto

lemma in_push:
  "(gap, m, g) \<in> set (fst (push (m0, g0) res)) \<Longrightarrow>
   (m = m0 \<and> g = g0) \<or> (gap, m, g) \<in> set (fst res)"
  by (cases res) auto

lemma consumed_empty: "\<not> length t < length s \<Longrightarrow> consumed s t = []"
  by (simp add: consumed_def)

lemma scan_match_origin:
  "(gap, m, g) \<in> set (fst (scan ic r prev s)) \<Longrightarrow>
   \<exists>prev' s' p t rest. ends ic r (prev', s', []) = (p, t, g) # rest \<and> m = consumed s' t"
proof (induction s arbitrary: prev gap rule: length_induct)
  case (1 s)
  note IH = "1.IH" [rule_format]
  show ?case
  proof (cases "ends ic r (prev, s, [])")
    case Nil
    show ?thesis
    proof (cases s)
      case Nil': Nil
      then show ?thesis using "1.prems" Nil by (subst (asm) scan.simps) simp
    next
      case (Cons c cs)
      then have "(gap, m, g) \<in> set (fst (skip c (scan ic r (Some c) cs)))"
        using "1.prems" Nil by (subst (asm) scan.simps) simp
      then obtain gap' where "(gap', m, g) \<in> set (fst (scan ic r (Some c) cs))"
        using in_skip by blast
      moreover have "length cs < length s" using Cons by simp
      ultimately show ?thesis using IH by blast
    qed
  next
    case (Cons e rest)
    obtain p t g0 where e: "e = (p, t, g0)" by (cases e) auto
    show ?thesis
    proof (cases "length t < length s")
      case True
      then have "(gap, m, g) \<in> set (fst (push (consumed s t, g0) (scan ic r p t)))"
        using "1.prems" Cons e by (subst (asm) scan.simps) simp
      then consider "m = consumed s t \<and> g = g0" | "(gap, m, g) \<in> set (fst (scan ic r p t))"
        using in_push by blast
      then show ?thesis
      proof cases
        case 1
        then show ?thesis using Cons e
          by (intro exI [of _ prev] exI [of _ s] exI [of _ p] exI [of _ t] exI [of _ rest]) simp
      next
        case 2
        then show ?thesis using IH True by blast
      qed
    next
      case False
      show ?thesis
      proof (cases s)
        case Nil
        then have "m = [] \<and> g = g0"
          using "1.prems" Cons e False by (subst (asm) scan.simps) simp
        then show ?thesis using Cons e consumed_empty [OF False]
          by (intro exI [of _ prev] exI [of _ s] exI [of _ p] exI [of _ t] exI [of _ rest]) simp
      next
        case (Cons c cs)
        then have "(gap, m, g) \<in> set (fst (push ([], g0) (skip c (scan ic r (Some c) cs))))"
          using "1.prems" \<open>ends ic r (prev, s, []) = e # rest\<close> e False
          by (subst (asm) scan.simps) simp
        then consider "m = [] \<and> g = g0"
          | "(gap, m, g) \<in> set (fst (skip c (scan ic r (Some c) cs)))"
          using in_push by blast
        then show ?thesis
        proof cases
          case 1
          then show ?thesis
            using \<open>ends ic r (prev, s, []) = e # rest\<close> e consumed_empty [OF False]
            by (intro exI [of _ prev] exI [of _ s] exI [of _ p] exI [of _ t] exI [of _ rest]) simp
        next
          case 2
          then obtain gap' where "(gap', m, g) \<in> set (fst (scan ic r (Some c) cs))"
            using in_skip by blast
          moreover have "length cs < length s" using Cons by simp
          ultimately show ?thesis using IH by blast
        qed
      qed
    qed
  qed
qed

lemma re_search_origin:
  assumes "re_search ic r s = Some (m, g)"
  shows "\<exists>prev' s' p t rest. ends ic r (prev', s', []) = (p, t, g) # rest \<and> m = consumed s' t"
proof -
  from assms obtain gap ms where "fst (scan ic r None s) = (gap, m, g) # ms"
    by (auto simp: re_search_def split: list.splits)
  then have "(gap, m, g) \<in> set (fst (scan ic r None s))" by simp
  then show ?thesis by (rule scan_match_origin)
qed

lemma capture_found: "n \<in> fst ` set g \<Longrightarrow> \<exists>t. capture n g = Inr t"
  by (induction g) force+

lemma re_search_group:
  assumes "re_search ic r s = Some (m, g)" and "sets_group n r"
  shows "\<exists>t. capture n g = Inr t"
proof -
  from re_search_origin [OF assms(1)] obtain prev' s' p t rest where
    "ends ic r (prev', s', []) = (p, t, g) # rest" by blast
  then have "(p, t, g) \<in> set (ends ic r (prev', s', []))" by simp
  from ends_sets_group [OF assms(2) this] show ?thesis
    using capture_found by simp
qed

lemma findall_group_matches:
  assumes "(gap, m, g) \<in> set (fst (scan ic r prev s))" and "sets_group n r"
  shows "\<exists>t. capture n g = Inr t"
proof -
  from scan_match_origin [OF assms(1)] obtain prev' s' p t rest where
    "ends ic r (prev', s', []) = (p, t, g) # rest" by blast
  then have "(p, t, g) \<in> set (ends ic r (prev', s', []))" by simp
  from ends_sets_group [OF assms(2) this] show ?thesis
    using capture_found by simp
qed

section \<open>Extraction never raises\<close>

lemma field_pattern_group: "sets_group 1 (field_pattern label)"
  by (simp add: field_pattern_def Plus_def)

lemma extract_field_total: "\<exists>v. extract_field text labels = Inr v"
proof (induction labels)
  case Nil
  then show ?case by simp
next
  case (Cons label labels)
  show ?case
  proof (cases "re_search True (field_pattern label) text")
    case None
    then show ?thesis using Cons by simp
  next
    case (Some mg)
    obtain m g where mg: "mg = (m, g)" by (cases mg) auto
    from re_search_group [OF Some [unfolded mg] field_pattern_group]
    obtain t where "capture 1 g = Inr t" by blast
    then show ?thesis using Some mg by simp
  qed
qed

lemma conversation_pattern_groups:
  "sets_group 1 conv_transcript" "sets_group 1 conv_conversation" "sets_group 1 conv_agent"
  by (simp_all add: conv_transcript_def conv_conversation_def conv_agent_def)

lemma first_conversation_total:
  assumes "\<forall>pattern\<in>set patterns. sets_group 1 pattern"
    and "first_conversation patterns text = Some r"
  shows "\<exists>v. r = Inr v"
  using assms
proof (induction patterns)
  case Nil
  then show ?case by simp
next
  case (Cons pattern patterns)
  show ?case
  proof (cases "re_search True pattern text")
    case None
    then show ?thesis using Cons by simp
  next
    case (Some mg)
    obtain m g where mg: "mg = (m, g)" by (cases mg) auto
    have "sets_group 1 pattern" using Cons.prems(1) by simp
    from re_search_group [OF Some [unfolded mg] this]
    obtain t where "capture 1 g = Inr t" by blast
    then show ?thesis using Some mg Cons.prems(2) by auto
  qed
qed

lemma extract_conversation_total: "\<exists>v. extract_conversation text = Inr v"
proof (cases "first_conversation conversation_patterns text")
  case None
  then show ?thesis by (simp add: extract_conversation_def)
next
  case (Some r)
  have "\<forall>pattern\<in>set conversation_patterns. sets_group 1 pattern"
    using conversation_pattern_groups by (simp add: conversation_patterns_def)
  from first_conversation_total [OF this Some] show ?thesis
    using Some by (auto simp: extract_conversation_def)
qed

lemma id_pattern_groups: "sets_group 1 id_call" "sets_group 1 id_label"
  by (simp_all add: id_call_def id_label_def Plus_def)

lemma ends_Lit_member:
  assumes "x \<in> set (ends ic (Lit a) (prev, s, g))"
  obtains c cs where "s = c # cs" "items_have ic [CChar a] c" "x = (Some c, cs, g)"
  using assms by (cases s) (auto split: if_splits)

lemma lower_of_upper: "is_upper c \<Longrightarrow> is_lower (lower_char c)"
proof (cases c)
  case (Char b0 b1 b2 b3 b4 b5 b6 b7)
  assume "is_upper c"
  then show ?thesis
    unfolding Char lower_char_Char by (simp add: is_upper_Char is_lower_Char)
qed

lemma upper_of_match:
  assumes "items_have True [CChar a] c" and "\<not> is_lower a"
  shows "upper_char c = a"
proof -
  from assms(1) consider "c = a" | "lower_char c = a" | "upper_char c = a"
    by (auto simp: items_have_def)
  then show ?thesis
  proof cases
    case 1
    then show ?thesis using assms(2) by (simp add: upper_char_def)
  next
    case 2
    show ?thesis
    proof (cases "is_upper c")
      case True
      then show ?thesis using lower_of_upper [OF True] 2 assms(2) by simp
    next
      case False
      then have "c = a" using 2 by (simp add: lower_char_def)
      then show ?thesis using assms(2) by (simp add: upper_char_def)
    qed
  next
    case 3
    then show ?thesis .
  qed
qed

lemma not_lower_TW:
  "\<not> is_lower CHR ''T''" "\<not> is_lower CHR ''W''" "\<not> is_lower CHR ''_''"
  by (simp_all add: is_lower_Char)

lemma consumed_append: "consumed (pre @ t) t = pre"
  by (simp add: consumed_def)

lemma id_tw_match_text:
  assumes "ends True id_tw (prev, s, []) = (p, t, g) # rest"
  shows "contains ''TW_'' (upper (consumed s t))"
proof -
  let ?R = "Seqs [Plus Word, Lit CHR ''_'', Plus Digit]"
  have shape: "id_tw = Seq (Seq (Lit CHR ''T'') (Seq (Lit CHR ''W'') (Seq (Lit CHR ''_'') Eps))) ?R"
    by (simp add: id_tw_def)
  have "(p, t, g) \<in> set (ends True id_tw (prev, s, []))"
    using assms by simp
  then obtain y where y: "y \<in> set (ends True (Seq (Lit CHR ''T'')
        (Seq (Lit CHR ''W'') (Seq (Lit CHR ''_'') Eps))) (prev, s, []))"
    and x: "(p, t, g) \<in> set (ends True ?R y)"
    unfolding shape by (rule ends_Seq_member)
  from y obtain y1 where y1: "y1 \<in> set (ends True (Lit CHR ''T'') (prev, s, []))"
    and ya: "y \<in> set (ends True (Seq (Lit CHR ''W'') (Seq (Lit CHR ''_'') Eps)) y1)"
    by (rule ends_Seq_member)
  from y1 obtain c1 s1 where s: "s = c1 # s1" and c1: "items_have True [CChar CHR ''T''] c1"
    and y1_eq: "y1 = (Some c1, s1, [])"
    by (rule ends_Lit_member)
  from ya obtain y2 where y2: "y2 \<in> set (ends True (Lit CHR ''W'') (Some c1, s1, []))"
    and yb: "y \<in> set (ends True (Seq (Lit CHR ''_'') Eps) y2)"
    unfolding y1_eq by (rule ends_Seq_member)
  from y2 obtain c2 s2 where s1: "s1 = c2 # s2" and c2: "items_have True [CChar CHR ''W''] c2"
    and y2_eq: "y2 = (Some c2, s2, [])"
    by (rule ends_Lit_member)
  from yb obtain y3 where y3: "y3 \<in> set (ends True (Lit CHR ''_'') (Some c2, s2, []))"
    and yc: "y \<in> set (ends True Eps y3)"
    unfolding y2_eq by (rule ends_Seq_member)
  from y3 obtain c3 s3 where s2: "s2 = c3 # s3" and c3: "items_have True [CChar CHR ''_''] c3"
    and y3_eq: "y3 = (Some c3, s3, [])"
    by (rule ends_Lit_member)
  have "y = (Some c3, s3, [])" using yc y3_eq by simp
  then obtain u where u: "s3 = u @ t"
    using ends_suffix [OF x] by auto
  have "consumed s t = c1 # c2 # c3 # u"
    using consumed_append [of "c1 # c2 # c3 # u" t] by (simp add: s s1 s2 u)
  moreover have "upper_char c1 = CHR ''T''" "upper_char c2 = CHR ''W''" "upper_char c3 = CHR ''_''"
    using upper_of_match c1 c2 c3 not_lower_TW by blast+
  ultimately show ?thesis by (simp add: upper_def)
qed

lemma id_tw_search_text:
  assumes "re_search True id_tw text = Some (m, g)"
  shows "contains ''TW_'' (upper m)"
  using re_search_origin [OF assms] id_tw_match_text by blast

lemma first_id_match_total:
  assumes "first_id_match id_patterns text = Some r"
  shows "\<exists>v. r = Inr v"
proof (cases "re_search True id_tw text")
  case (Some mg)
  obtain m g where mg: "mg = (m, g)" by (cases mg) auto
  have "contains ''TW_'' (upper m)"
    using id_tw_search_text Some mg by blast
  then show ?thesis using assms Some mg by (auto simp: id_patterns_def)
next
  case None
  note no_tw = None
  show ?thesis
  proof (cases "re_search True id_call text")
    case (Some mg)
    obtain m g where mg: "mg = (m, g)" by (cases mg) auto
    from re_search_group [OF Some [unfolded mg] id_pattern_groups(1)]
    obtain t where "capture 1 g = Inr t" by blast
    then show ?thesis using assms no_tw Some mg by (auto simp: id_patterns_def)
  next
    case None
    note no_call = None
    show ?thesis
    proof (cases "re_search True id_label text")
      case (Some mg)
      obtain m g where mg: "mg = (m, g)" by (cases mg) auto
      from re_search_group [OF Some [unfolded mg] id_pattern_groups(2)]
      obtain t where "capture 1 g = Inr t" by blast
      then show ?thesis using assms no_tw no_call Some mg by (auto simp: id_patterns_def)
    next
      case None
      then show ?thesis using assms no_tw no_call by (simp add: id_patterns_def)
    qed
  qed
qed

lemma extract_call_id_total: "\<exists>v. extract_call_id text call_number = Inr v"
proof (cases "first_id_match id_patterns text")
  case None
  then show ?thesis by (simp add: extract_call_id_def)
next
  case (Some r)
  from first_id_match_total [OF Some] show ?thesis
    using Some by (auto simp: extract_call_id_def)
qed

lemma parse_single_call_total:
  "\<exists>parsed_call. parse_single_call text call_number = Inr parsed_call \<and> parsed_call \<noteq> []"
proof -
  obtain call_id where "extract_call_id text call_number = Inr call_id"
    using extract_call_id_total by blast
  moreover obtain conversation where "extract_conversation text = Inr conversation"
    using extract_conversation_total by blast
  moreover have "\<And>labels. \<exists>v. extract_field text labels = Inr v"
    using extract_field_total by blast
  ultimately show ?thesis
    unfolding parse_single_call_def and_then_def
    by (metis (no_types, lifting) list.distinct(1) sum.case(2))
qed

section \<open>The parser on an example section\<close>

lemma pad3_one: "pad3 (Suc 0) = ''001''"
  by (simp add: pad3_def digits.simps [of "Suc 0"] char_of_eq_iff numeral_2_eq_2)

lemma example_call_id: "extract_call_id example_section 1 = Inr ''TW_UNKNOWN_001''"
  by (simp only: regex_eval string_eval parser_eval extraction_eval pad3_one
      cong: if_weak_cong list.case_cong_weak option.case_cong_weak prod.case_cong_weak
        sum.case_cong_weak)

lemma example_channel: "extract_channel example_section ''TW_UNKNOWN_001'' = ''Unknown''"
  by (simp only: regex_eval string_eval parser_eval extraction_eval
      cong: if_weak_cong list.case_cong_weak option.case_cong_weak prod.case_cong_weak
        sum.case_cong_weak)

lemma example_date: "extract_field example_section [''date:'', ''timestamp:'', ''time:''] = Inr []"
  by (simp only: regex_eval string_eval parser_eval extraction_eval
      cong: if_weak_cong list.case_cong_weak option.case_cong_weak prod.case_cong_weak
        sum.case_cong_weak)

lemma example_category:
  "extract_field example_section [''category:'', ''issue type:'', ''type:'', ''problem:''] =
     Inr ''Billing''"
  by (simp only: regex_eval string_eval parser_eval extraction_eval
      cong: if_weak_cong list.case_cong_weak option.case_cong_weak prod.case_cong_weak
        sum.case_cong_weak)

lemma example_severity:
  "extract_field example_section [''severity:'', ''priority:'', ''level:''] = Inr ''High''"
  by (simp only: regex_eval string_eval parser_eval extraction_eval
      cong: if_weak_cong list.case_cong_weak option.case_cong_weak prod.case_cong_weak
        sum.case_cong_weak)

lemma example_journey:
  "extract_field example_section [''journey type:'', ''journey:'', ''type:''] = Inr []"
  by (simp only: regex_eval string_eval parser_eval extraction_eval
      cong: if_weak_cong list.case_cong_weak option.case_cong_weak prod.case_cong_weak
        sum.case_cong_weak)

lemma example_conversation: "extract_conversation example_section = Inr ''Agent: Hi there''"
  by (simp only: regex_eval string_eval parser_eval extraction_eval
      cong: if_weak_cong list.case_cong_weak option.case_cong_weak prod.case_cong_weak
        sum.case_cong_weak)

lemma example_resolution:
  "extract_field example_section [''resolution:'', ''solution:'', ''fix:'', ''resolved:''] = Inr []"
  by (simp only: regex_eval string_eval parser_eval extraction_eval
      cong: if_weak_cong list.case_cong_weak option.case_cong_weak prod.case_cong_weak
        sum.case_cong_weak)

lemma example_impact:
  "extract_field example_section [''impact:'', ''effect:'', ''consequence:''] = Inr []"
  by (simp only: regex_eval string_eval parser_eval extraction_eval
      cong: if_weak_cong list.case_cong_weak option.case_cong_weak prod.case_cong_weak
        sum.case_cong_weak)

lemma example_root_cause:
  "extract_field example_section [''root cause:'', ''cause:'', ''reason:''] = Inr []"
  by (simp only: regex_eval string_eval parser_eval extraction_eval
      cong: if_weak_cong list.case_cong_weak option.case_cong_weak prod.case_cong_weak
        sum.case_cong_weak)

lemma parse_single_call_example:
  "parse_single_call example_section 1 =
     Inr [(''call_id'', JStr ''TW_UNKNOWN_001''), (''channel'', JStr ''Unknown''),
          (''date'', JStr []), (''category'', JStr ''Billing''), (''severity'', JStr ''High''),
          (''journey_type'', JStr []), (''transcript'', JStr ''Agent: Hi there''),
          (''resolution'', JStr []), (''impact'', JStr []), (''root_cause'', JStr []),
          (''raw_text_length'', JInt 48)]"
  by (simp only: parse_single_call_def and_then_def example_call_id example_channel example_date
      example_category example_severity example_journey example_conversation example_resolution
      example_impact example_root_cause sum.case)
    (simp add: example_section_def)

section \<open>The claims\<close>

subsection \<open>C5: the example text\<close>

lemma mask_text_example:
  "mask_text ''Call me at 555-123-4567 or email a@b.com'' =
     Inr (''Call me at [PHONE_NUMBER] or email [EMAIL_ADDRESS]'',
          [(''phone_numbers'', 1), (''emails'', 1), (''account_numbers'', 0),
           (''imei_numbers'', 0), (''credit_cards'', 0), (''ssn'', 0), (''names'', 0),
           (''addresses'', 0)])"
  by (simp only: regex_eval mask_eval
      cong: if_weak_cong list.case_cong_weak option.case_cong_weak prod.case_cong_weak
        sum.case_cong_weak)

lemma masked_example_no_phone_email:
  "map (\<lambda>pattern. re_findall True pattern ''Call me at [PHONE_NUMBER] or email [EMAIL_ADDRESS]'')
       [phone_dashes, phone_parens, phone_dots, phone_plain, email_pattern] = [[], [], [], [], []]"
  by (simp only: regex_eval mask_eval
      cong: if_weak_cong list.case_cong_weak option.case_cong_weak prod.case_cong_weak
        sum.case_cong_weak)

lemma masked_example_tokens:
  "contains ''[PHONE_NUMBER]'' ''Call me at [PHONE_NUMBER] or email [EMAIL_ADDRESS]'' \<and>
   contains ''[EMAIL_ADDRESS]'' ''Call me at [PHONE_NUMBER] or email [EMAIL_ADDRESS]''"
  by simp

text \<open>
  Claim C5. Masking the text \<^verbatim>\<open>Call me at 555-123-4567 or email a@b.com\<close> succeeds;
  the masked text contains the tokens \<^verbatim>\<open>[PHONE_NUMBER]\<close> and \<^verbatim>\<open>[EMAIL_ADDRESS]\<close>,
  none of the four phone patterns and not the email pattern finds a match in it, and the
  tally is 1 for \<^verbatim>\<open>phone_numbers\<close> and 1 for \<^verbatim>\<open>emails\<close>.
\<close>

theorem C5_pii_coverage:
  "\<exists>masked tally.
     mask_text ''Call me at 555-123-4567 or email a@b.com'' = Inr (masked, tally) \<and>
     contains ''[PHONE_NUMBER]'' masked \<and>
     contains ''[EMAIL_ADDRESS]'' masked \<and>
     map (\<lambda>pattern. re_findall True pattern masked)
         [phone_dashes, phone_parens, phone_dots, phone_plain, email_pattern] = [[], [], [], [], []] \<and>
     lookup tally ''phone_numbers'' = Inr 1 \<and>
     lookup tally ''emails'' = Inr 1"
  using mask_text_example masked_example_no_phone_email masked_example_tokens
  by (intro exI conjI) (assumption | simp)+

subsection \<open>C3: the severity default\<close>

text \<open>
  Claim C3 says that an empty raw severity is normalised to \<^verbatim>\<open>Medium\<close>. The code
  returns the empty string for the empty string.
\<close>

theorem C3_empty_severity_counterexample:
  "clean_severity [] = [] \<and> clean_severity [] \<noteq> ''Medium''"
  by (simp add: clean_severity_def)

lemma severity_clean_label_only: "severity_clean ''TRANSCRIPT: hello'' = []"
  by (simp only: regex_eval string_eval cleaner_eval
      cong: if_weak_cong list.case_cong_weak option.case_cong_weak prod.case_cong_weak
        sum.case_cong_weak)

text \<open>
  Claim C3, amended. The empty raw severity is normalised to the empty string. The default
  \<^verbatim>\<open>Medium\<close> is the result for a raw severity that is not empty and of which nothing
  is left once the contamination is removed and the value is trimmed.
\<close>

theorem C3_severity_default:
  assumes "severity \<noteq> []" and "severity_clean severity = []"
  shows "clean_severity [] = [] \<and> clean_severity severity = ''Medium''"
  using assms by (simp add: clean_severity_def lower_def)

theorem C3_severity_default_witness:
  "''TRANSCRIPT: hello'' \<noteq> [] \<and> severity_clean ''TRANSCRIPT: hello'' = [] \<and>
   clean_severity [] = [] \<and> clean_severity ''TRANSCRIPT: hello'' = ''Medium''"
  using C3_severity_default [of "''TRANSCRIPT: hello''"] severity_clean_label_only
  by simp

subsection \<open>C7: the order of the severity keywords\<close>

lemma clean_severity_critical_high: "clean_severity ''critical high'' = ''High''"
  by (simp only: regex_eval string_eval cleaner_eval
      cong: if_weak_cong list.case_cong_weak option.case_cong_weak prod.case_cong_weak
        sum.case_cong_weak)

lemma clean_severity_urgent: "clean_severity ''urgent'' = ''Urgent''"
  by (simp only: regex_eval string_eval cleaner_eval
      cong: if_weak_cong list.case_cong_weak option.case_cong_weak prod.case_cong_weak
        sum.case_cong_weak)

text \<open>
  Claim C7 says that \<^verbatim>\<open>critical\<close> is tested before \<^verbatim>\<open>high\<close> and that a value
  with none of the keywords is returned verbatim. The code turns a value with both
  keywords into \<^verbatim>\<open>High\<close>, and returns \<^verbatim>\<open>urgent\<close> title-cased.
\<close>

theorem C7_severity_order_counterexample:
  "clean_severity ''critical high'' = ''High'' \<and> clean_severity ''critical high'' \<noteq> ''Critical'' \<and>
   clean_severity ''urgent'' = ''Urgent'' \<and> clean_severity ''urgent'' \<noteq> ''urgent''"
  using clean_severity_critical_high clean_severity_urgent by simp

text \<open>
  Claim C7, amended. For a raw severity that is not empty, the keywords are looked for in
  the lower-cased cleaned value (contamination removed, trimmed, title-cased) in the order
  high, medium, low, critical, and the first keyword found gives the result. When none is
  found the result is the cleaned value itself, or \<^verbatim>\<open>Medium\<close> when the cleaned value
  is empty.
\<close>

theorem C7_severity_order:
  assumes "severity \<noteq> []"
  shows "clean_severity severity =
     (case find (\<lambda>(keyword, level). contains keyword (lower (severity_clean severity)))
             severity_priority of
        Some (keyword, level) \<Rightarrow> level
      | None \<Rightarrow> if severity_clean severity = [] then ''Medium'' else severity_clean severity)"
  using assms by (simp add: clean_severity_def severity_priority_def)

lemma severity_clean_mixed: "severity_clean ''HIGH / critical'' = ''High / Critical''"
  by (simp only: regex_eval string_eval cleaner_eval
      cong: if_weak_cong list.case_cong_weak option.case_cong_weak prod.case_cong_weak
        sum.case_cong_weak)

theorem C7_severity_order_witness:
  "''HIGH / critical'' \<noteq> [] \<and> clean_severity ''HIGH / critical'' = ''High''"
proof -
  have "contains ''high'' (lower ''High / Critical'')"
    by (simp only: regex_eval string_eval
      cong: if_weak_cong list.case_cong_weak option.case_cong_weak prod.case_cong_weak
        sum.case_cong_weak)
  then show ?thesis
    using C7_severity_order [of "''HIGH / critical''"]
    by (simp add: severity_clean_mixed severity_priority_def)
qed

subsection \<open>C4: category normalisation\<close>

lemma clean_category_unmatched: "clean_category ''network outage'' = ''network outage''"
  by (simp only: regex_eval string_eval cleaner_eval
      cong: if_weak_cong list.case_cong_weak option.case_cong_weak prod.case_cong_weak
        sum.case_cong_weak)

lemma clean_category_device_activation:
  "clean_category ''device activation issue'' = ''Device Activation''"
  by (simp only: regex_eval string_eval cleaner_eval
      cong: if_weak_cong list.case_cong_weak option.case_cong_weak prod.case_cong_weak
        sum.case_cong_weak)

text \<open>
  Claim C4 says that the empty category is normalised to \<^verbatim>\<open>Unknown\<close> and that a
  category matching no key is returned title-cased. The code returns the empty string for
  the empty string, and \<^verbatim>\<open>network outage\<close> with its case unchanged.
\<close>

theorem C4_category_counterexample:
  "clean_category [] = [] \<and> clean_category [] \<noteq> ''Unknown'' \<and>
   clean_category ''network outage'' = ''network outage'' \<and>
   clean_category ''network outage'' \<noteq> title ''network outage''"
proof -
  have "title ''network outage'' = ''Network Outage''"
    by (simp only: regex_eval string_eval
      cong: if_weak_cong list.case_cong_weak option.case_cong_weak prod.case_cong_weak
        sum.case_cong_weak)
  then show ?thesis
    using clean_category_unmatched by (simp add: clean_category_def)
qed

lemma map_category_find:
  "map_category table s =
     (case find (\<lambda>(key, val). contains key s) table of Some (key, val) \<Rightarrow> Some val | None \<Rightarrow> None)"
  by (induction table) auto

text \<open>
  Claim C4, amended. The category \<^verbatim>\<open>device activation issue\<close> is normalised to
  \<^verbatim>\<open>Device Activation\<close>, and the empty category to the empty string. For a category
  that is not empty, the keys of the canonical table are looked for in the lower-cased
  cleaned value (contamination removed, trimmed) and the first key found, in the order of
  the table, gives the result. When no key is found the result is the cleaned value with
  its case unchanged, or \<^verbatim>\<open>Unknown\<close> when the cleaned value is empty.
\<close>

theorem C4_category_normalisation:
  assumes "category \<noteq> []"
  shows "clean_category ''device activation issue'' = ''Device Activation'' \<and>
     clean_category [] = [] \<and>
     clean_category category =
       (case find (\<lambda>(key, val). contains key (lower (category_clean category))) category_mapping of
          Some (key, val) \<Rightarrow> val
        | None \<Rightarrow> if category_clean category = [] then ''Unknown'' else category_clean category)"
proof -
  have "clean_category [] = []"
    by (simp add: clean_category_def)
  moreover have "clean_category category =
       (case find (\<lambda>(key, val). contains key (lower (category_clean category))) category_mapping of
          Some (key, val) \<Rightarrow> val
        | None \<Rightarrow> if category_clean category = [] then ''Unknown'' else category_clean category)"
    using assms by (simp add: clean_category_def map_category_find split: option.splits)
  ultimately show ?thesis
    using clean_category_device_activation by simp
qed

lemma category_clean_contaminated: "category_clean ''Billing Dispute High'' = ''Billing Dispute''"
  by (simp only: regex_eval string_eval cleaner_eval
      cong: if_weak_cong list.case_cong_weak option.case_cong_weak prod.case_cong_weak
        sum.case_cong_weak)

lemma find_billing_dispute:
  "find (\<lambda>(key, val). contains key (lower ''Billing Dispute'')) category_mapping =
     Some (''billing dispute'', ''Billing Dispute'')"
  by (simp only: regex_eval string_eval cleaner_eval find.simps
      cong: if_weak_cong list.case_cong_weak option.case_cong_weak prod.case_cong_weak
        sum.case_cong_weak)

theorem C4_category_normalisation_witness:
  "''Billing Dispute High'' \<noteq> [] \<and> clean_category ''Billing Dispute High'' = ''Billing Dispute''"
  using C4_category_normalisation [of "''Billing Dispute High''"]
  by (simp add: category_clean_contaminated find_billing_dispute)

subsection \<open>Masking a record: C9 and C10\<close>

lemma example_record_masked:
  "mask_single_transcript example_record =
     Inr (example_record(''transcript'' \<mapsto> JStr ''Call me at [PHONE_NUMBER]'',
                         ''call_id'' \<mapsto> JStr ''TW_WEB_001''),
          [(''phone_numbers'', 1), (''emails'', 0), (''account_numbers'', 0),
           (''imei_numbers'', 0), (''credit_cards'', 0), (''ssn'', 0), (''names'', 0),
           (''addresses'', 0)])"
  by (simp only: regex_eval mask_eval record_eval
      cong: if_weak_cong list.case_cong_weak option.case_cong_weak prod.case_cong_weak
        sum.case_cong_weak)

lemma example_digits_id_record_masked:
  "mask_single_transcript example_digits_id_record =
     Inr (example_digits_id_record(''transcript'' \<mapsto> JStr ''Call me at [PHONE_NUMBER]'',
                         ''call_id'' \<mapsto> JStr ''[PHONE_NUMBER]''),
          [(''phone_numbers'', 1), (''emails'', 0), (''account_numbers'', 0),
           (''imei_numbers'', 0), (''credit_cards'', 0), (''ssn'', 0), (''names'', 0),
           (''addresses'', 0)])"
  by (simp only: regex_eval mask_eval record_eval
      cong: if_weak_cong list.case_cong_weak option.case_cong_weak prod.case_cong_weak
        sum.case_cong_weak)

lemma example_number_record_fails:
  "mask_single_transcript example_number_record = Inl TypeError"
  by (simp add: mask_single_transcript_def fields_to_mask_def example_number_record_def)

lemma mask_fields_frame:
  "mask_fields fs (m, p) = Inr (m', p') \<Longrightarrow> k \<notin> set fs \<Longrightarrow> m' k = m k"
proof (induction fs arbitrary: m p)
  case Nil
  then show ?case by simp
next
  case (Cons f fs)
  then show ?case
    by (auto split: option.splits if_splits sum.splits prod.splits)
qed

lemma mask_fields_tally_cong:
  "\<forall>f\<in>set fs. m1 f = m2 f \<Longrightarrow> mask_fields fs (m1, p) = Inr (m1', p1) \<Longrightarrow>
   mask_fields fs (m2, p) = Inr (m2', p2) \<Longrightarrow> p1 = p2"
proof (induction fs arbitrary: m1 m2 p)
  case Nil
  then show ?case by simp
next
  case (Cons f fs)
  have same: "m1 f = m2 f" using Cons.prems(1) by simp
  show ?case
  proof (cases "m1 f")
    case None
    moreover have "m2 f = None" using same None by simp
    ultimately have "mask_fields fs (m1, p) = Inr (m1', p1)" "mask_fields fs (m2, p) = Inr (m2', p2)"
      using Cons.prems(2,3) by simp_all
    moreover have "\<forall>g\<in>set fs. m1 g = m2 g" using Cons.prems(1) by simp
    ultimately show ?thesis using Cons.IH by blast
  next
    case (Some v)
    have m2f: "m2 f = Some v" using same Some by simp
    show ?thesis
    proof (cases "truthy v")
      case False
      then have "mask_fields fs (m1, p) = Inr (m1', p1)" "mask_fields fs (m2, p) = Inr (m2', p2)"
        using Cons.prems(2,3) Some m2f by simp_all
      moreover have "\<forall>g\<in>set fs. m1 g = m2 g" using Cons.prems(1) by simp
      ultimately show ?thesis using Cons.IH by blast
    next
      case True
      from Cons.prems(2) Some True obtain mv fp pf where
        mv: "mask_value v = Inr (mv, fp)" and pf: "add_tally fp p = Inr pf"
        and r1: "mask_fields fs (m1(f \<mapsto> mv), pf) = Inr (m1', p1)"
        by (auto split: sum.splits prod.splits)
      from Cons.prems(3) True m2f mv pf have
        r2: "mask_fields fs (m2(f \<mapsto> mv), pf) = Inr (m2', p2)"
        by (auto split: sum.splits prod.splits)
      have "\<forall>g\<in>set fs. (m1(f \<mapsto> mv)) g = (m2(f \<mapsto> mv)) g"
        using Cons.prems(1) by simp
      then show ?thesis using Cons.IH r1 r2 by blast
    qed
  qed
qed

lemma mask_all_results:
  "mask_all ts (acc, st) = Inr (out, st') \<Longrightarrow>
   \<exists>ms. out = acc @ ms \<and>
     list_all2 (\<lambda>t m. \<exists>tally. mask_single_transcript t = Inr (m, tally)) ts ms"
proof (induction ts arbitrary: acc st)
  case Nil
  then show ?case by simp
next
  case (Cons t ts)
  from Cons.prems obtain m found st1 where
    m: "mask_single_transcript t = Inr (m, found)"
    and r: "mask_all ts (acc @ [m], st1) = Inr (out, st')"
    by (auto split: sum.splits prod.splits option.splits)
  from Cons.IH [OF r] obtain ms where
    "out = (acc @ [m]) @ ms" and
    "list_all2 (\<lambda>t m. \<exists>tally. mask_single_transcript t = Inr (m, tally)) ts ms"
    by blast
  then show ?case using m by (intro exI [of _ "m # ms"]) auto
qed

lemma mask_data_results:
  "mask_data ts = Some (out, stats) \<Longrightarrow>
   list_all2 (\<lambda>t m. \<exists>tally. mask_single_transcript t = Inr (m, tally)) ts out"
  using mask_all_results [of ts "[]" zero_tally out stats]
  by (auto simp: mask_data_def split: sum.splits)

lemma mask_data_aborts:
  assumes "t \<in> set ts" and "mask_single_transcript t = Inl e"
  shows "mask_data ts = None"
proof (rule ccontr)
  assume "mask_data ts \<noteq> None"
  then obtain out stats where "mask_data ts = Some (out, stats)" by auto
  then have "list_all2 (\<lambda>t m. \<exists>tally. mask_single_transcript t = Inr (m, tally)) ts out"
    by (rule mask_data_results)
  moreover obtain i where "i < length ts" and "ts ! i = t"
    using assms(1) by (auto simp: in_set_conv_nth)
  ultimately have "\<exists>tally. mask_single_transcript t = Inr (out ! i, tally)"
    by (auto simp: list_all2_conv_all_nth)
  then show False using assms(2) by auto
qed


text \<open>
  Claim C9. When masking a record succeeds, every field other than \<^verbatim>\<open>transcript\<close>,
  \<^verbatim>\<open>resolution\<close>, \<^verbatim>\<open>impact\<close>, \<^verbatim>\<open>root_cause\<close> and \<^verbatim>\<open>call_id\<close> is in the
  masked record exactly as it is in the record: present with the same value, or absent
  from both.
\<close>

theorem C9_other_fields_unchanged:
  assumes "mask_single_transcript transcript = Inr (masked, pii_found)"
    and "field \<notin> {''transcript'', ''resolution'', ''impact'', ''root_cause'', ''call_id''}"
  shows "masked field = transcript field"
proof -
  from assms(1) obtain m where
    fields: "mask_fields fields_to_mask (transcript, zero_tally) = Inr (m, pii_found)"
    and masked: "masked = m \<or> (\<exists>v. masked = m(''call_id'' \<mapsto> v))"
    by (auto simp: mask_single_transcript_def split: sum.splits prod.splits option.splits)
  have "field \<notin> set fields_to_mask"
    using assms(2) by (simp add: fields_to_mask_def)
  then have "m field = transcript field"
    using mask_fields_frame [OF fields] by simp
  moreover have "masked field = m field"
    using masked assms(2) by auto
  ultimately show ?thesis by simp
qed

theorem C9_other_fields_unchanged_witness:
  "\<exists>masked pii_found.
     mask_single_transcript example_record = Inr (masked, pii_found) \<and>
     masked ''channel'' = Some (JStr ''Web Portal'') \<and>
     masked ''raw_text_length'' = Some (JInt 23) \<and>
     masked ''severity'' = None \<and>
     masked ''transcript'' = Some (JStr ''Call me at [PHONE_NUMBER]'')"
proof -
  let ?masked = "example_record(''transcript'' \<mapsto> JStr ''Call me at [PHONE_NUMBER]'',
                               ''call_id'' \<mapsto> JStr ''TW_WEB_001'')"
  have "?masked ''channel'' = example_record ''channel''"
    using C9_other_fields_unchanged [OF example_record_masked, of "''channel''"] by simp
  moreover have "?masked ''raw_text_length'' = example_record ''raw_text_length''"
    using C9_other_fields_unchanged [OF example_record_masked, of "''raw_text_length''"] by simp
  moreover have "?masked ''severity'' = example_record ''severity''"
    using C9_other_fields_unchanged [OF example_record_masked, of "''severity''"] by simp
  ultimately show ?thesis
    using example_record_masked by (simp add: example_record_def)
qed

text \<open>
  Claim C10. The tally of a record is decided by the fields \<^verbatim>\<open>transcript\<close>,
  \<^verbatim>\<open>resolution\<close>, \<^verbatim>\<open>impact\<close> and \<^verbatim>\<open>root_cause\<close> alone: two records that agree
  on these four fields get the same tally, whatever their \<^verbatim>\<open>call_id\<close> is, although
  the \<^verbatim>\<open>call_id\<close> of the masked record is the result of the same masking function.
\<close>

theorem C10_call_id_not_tallied:
  assumes "\<forall>field\<in>set fields_to_mask. transcript1 field = transcript2 field"
    and "mask_single_transcript transcript1 = Inr (masked1, pii_found1)"
    and "mask_single_transcript transcript2 = Inr (masked2, pii_found2)"
  shows "pii_found1 = pii_found2 \<and>
     (\<forall>call_id. transcript1 ''call_id'' = Some call_id \<longrightarrow>
        (\<exists>masked_call_id counted. mask_value call_id = Inr (masked_call_id, counted) \<and>
           masked1 ''call_id'' = Some masked_call_id))"
proof -
  from assms(2) obtain m1 where
    f1: "mask_fields fields_to_mask (transcript1, zero_tally) = Inr (m1, pii_found1)"
    and c1: "case m1 ''call_id'' of None \<Rightarrow> masked1 = m1
             | Some cid \<Rightarrow> \<exists>mc counted. mask_value cid = Inr (mc, counted) \<and>
                 masked1 = m1(''call_id'' \<mapsto> mc)"
    by (auto simp: mask_single_transcript_def split: sum.splits prod.splits option.splits)
  from assms(3) obtain m2 where
    f2: "mask_fields fields_to_mask (transcript2, zero_tally) = Inr (m2, pii_found2)"
    by (auto simp: mask_single_transcript_def split: sum.splits prod.splits option.splits)
  have tally: "pii_found1 = pii_found2"
    using mask_fields_tally_cong [OF assms(1) f1 f2] .
  have "m1 ''call_id'' = transcript1 ''call_id''"
    using mask_fields_frame [OF f1, of "''call_id''"] by (simp add: fields_to_mask_def)
  then have "\<forall>call_id. transcript1 ''call_id'' = Some call_id \<longrightarrow>
        (\<exists>masked_call_id counted. mask_value call_id = Inr (masked_call_id, counted) \<and>
           masked1 ''call_id'' = Some masked_call_id)"
    using c1 by auto
  then show ?thesis using tally by simp
qed

theorem C10_call_id_not_tallied_witness:
  "\<exists>masked1 pii_found1 masked2 pii_found2.
     mask_single_transcript example_digits_id_record = Inr (masked1, pii_found1) \<and>
     mask_single_transcript example_record = Inr (masked2, pii_found2) \<and>
     pii_found1 = pii_found2 \<and>
     lookup pii_found1 ''phone_numbers'' = Inr 1 \<and>
     masked1 ''call_id'' = Some (JStr ''[PHONE_NUMBER]'')"
proof -
  have "\<forall>field\<in>set fields_to_mask. example_digits_id_record field = example_record field"
    by (simp add: fields_to_mask_def example_digits_id_record_def example_record_def)
  from C10_call_id_not_tallied [OF this example_digits_id_record_masked example_record_masked]
  show ?thesis
    using example_digits_id_record_masked example_record_masked by simp
qed

subsection \<open>C8: the channel of a section\<close>

lemma starts_with_prefix: "starts_with (a @ b) s \<Longrightarrow> starts_with a s"
  by (induction a s rule: starts_with.induct) auto

lemma contains_prefix: "contains (a @ b) s \<Longrightarrow> contains a s"
  by (induction s) (auto dest: starts_with_prefix)

lemma starts_with_append_foreign:
  "tok \<noteq> [] \<Longrightarrow> set tok \<inter> set ds = {} \<Longrightarrow> starts_with tok (xs @ ds) = starts_with tok xs"
proof (induction tok xs rule: starts_with.induct)
  case (1 s)
  then show ?case by simp
next
  case (2 a as)
  then show ?case by (cases ds) auto
next
  case (3 a as c cs)
  then show ?case by (cases as) auto
qed

lemma contains_foreign: "tok \<noteq> [] \<Longrightarrow> set tok \<inter> set ds = {} \<Longrightarrow> \<not> contains tok ds"
  by (induction ds) (auto simp: neq_Nil_conv)

lemma contains_append_foreign:
  "tok \<noteq> [] \<Longrightarrow> set tok \<inter> set ds = {} \<Longrightarrow> contains tok (xs @ ds) = contains tok xs"
proof (induction xs)
  case Nil
  then show ?case using contains_foreign [of tok ds] by simp
next
  case (Cons x xs)
  then show ?case
    using starts_with_append_foreign [of tok ds "x # xs"] by simp
qed

lemma is_digit_char_of: "d < 10 \<Longrightarrow> is_digit (char_of (48 + d :: nat))"
  by (simp add: is_digit_def)

lemma digits_are_digits: "c \<in> set (digits n) \<Longrightarrow> is_digit c"
proof (induction n rule: digits.induct)
  case (1 n)
  show ?case
  proof (cases "n < 10")
    case True
    then show ?thesis using "1.prems" is_digit_char_of [of n] by (simp add: digits.simps [of n])
  next
    case False
    then show ?thesis
      using "1.prems" "1.IH" is_digit_char_of [of "n mod 10"]
      by (auto simp add: digits.simps [of n])
  qed
qed

lemma pad3_are_digits: "c \<in> set (pad3 n) \<Longrightarrow> is_digit c"
  using digits_are_digits [of c n] by (auto simp: pad3_def is_digit_def)

lemma upper_digit: "is_digit c \<Longrightarrow> upper_char c = c"
  by (auto simp: upper_char_def is_digit_def is_lower_def)

lemma upper_pad3: "upper (pad3 n) = pad3 n"
  by (simp add: upper_def map_idI pad3_are_digits upper_digit)

lemma token_in_synthesised_id:
  assumes "tok \<noteq> []" and "\<forall>c\<in>set tok. \<not> is_digit c"
  shows "contains tok (upper (pre @ pad3 n)) = contains tok (upper pre)"
proof -
  have "set tok \<inter> set (pad3 n) = {}"
    using assms(2) pad3_are_digits by auto
  then have "contains tok (upper pre @ pad3 n) = contains tok (upper pre)"
    using contains_append_foreign [OF assms(1)] by simp
  moreover have "upper (pre @ pad3 n) = upper pre @ pad3 n"
    using upper_pad3 by (simp add: upper_def)
  ultimately show ?thesis by simp
qed

lemma letters_not_digits:
  "\<forall>c\<in>set ''TASORA''. \<not> is_digit c" "\<forall>c\<in>set ''WEB''. \<not> is_digit c"
  "\<forall>c\<in>set ''APP''. \<not> is_digit c" "\<forall>c\<in>set ''TARGET''. \<not> is_digit c"
  "\<forall>c\<in>set ''SMS''. \<not> is_digit c"
  by (simp_all add: is_digit_Char)

lemmas id_tokens =
  token_in_synthesised_id [OF _ letters_not_digits(1)]
  token_in_synthesised_id [OF _ letters_not_digits(2)]
  token_in_synthesised_id [OF _ letters_not_digits(3)]
  token_in_synthesised_id [OF _ letters_not_digits(4)]
  token_in_synthesised_id [OF _ letters_not_digits(5)]

lemma upper_literals:
  "upper ''TW_TASORA_'' = ''TW_TASORA_''" "upper ''TW_WEB_'' = ''TW_WEB_''"
  "upper ''TW_APP_'' = ''TW_APP_''" "upper ''TW_TARGET_'' = ''TW_TARGET_''"
  "upper ''TW_SMS_'' = ''TW_SMS_''" "upper ''TW_UNKNOWN_'' = ''TW_UNKNOWN_''"
  by (simp_all add: upper_def upper_char_Char is_lower_Char)



lemma synthesised_channel:
  assumes "first_id_match id_patterns text = None"
  shows "section_channel text call_number =
     Inr (if contains ''tasora'' (lower text) then ''TASORA''
          else if contains ''web'' (lower text) \<or> contains ''portal'' (lower text) then ''Web Portal''
          else if contains ''app'' (lower text) \<or> contains ''mobile'' (lower text) then ''Mobile App''
          else if contains ''target'' (lower text) then ''Target''
          else if contains ''sms'' (lower text) \<or> contains ''bot'' (lower text) \<or>
                  contains ''ivr'' (lower text) then ''SMS/Bot/IVR''
          else ''Unknown'')"
proof -
  have web: "\<not> contains ''web'' (lower text) \<Longrightarrow>
      \<not> contains ''web portal'' (lower text) \<and> \<not> contains ''website'' (lower text)"
    using contains_prefix [of "''web''" "'' portal''" "lower text"]
      contains_prefix [of "''web''" "''site''" "lower text"] by auto
  have app: "\<not> contains ''app'' (lower text) \<Longrightarrow> \<not> contains ''application'' (lower text)"
    using contains_prefix [of "''app''" "''lication''" "lower text"] by auto
  have mobile: "\<not> contains ''mobile'' (lower text) \<Longrightarrow> \<not> contains ''mobile app'' (lower text)"
    using contains_prefix [of "''mobile''" "'' app''" "lower text"] by auto
  have tok: "\<And>pre. contains ''TASORA'' (upper (pre @ pad3 call_number)) = contains ''TASORA'' (upper pre)"
    "\<And>pre. contains ''WEB'' (upper (pre @ pad3 call_number)) = contains ''WEB'' (upper pre)"
    "\<And>pre. contains ''APP'' (upper (pre @ pad3 call_number)) = contains ''APP'' (upper pre)"
    "\<And>pre. contains ''TARGET'' (upper (pre @ pad3 call_number)) = contains ''TARGET'' (upper pre)"
    "\<And>pre. contains ''SMS'' (upper (pre @ pad3 call_number)) = contains ''SMS'' (upper pre)"
    using id_tokens by simp_all
  have ch: "\<And>pre. extract_channel text (pre @ pad3 call_number) = extract_channel text pre"
    by (simp only: extract_channel_def tok)
  have id: "extract_call_id text call_number =
     Inr ((if contains ''tasora'' (lower text) then ''TW_TASORA_''
               else if contains ''web'' (lower text) \<or> contains ''portal'' (lower text)
                 then ''TW_WEB_''
               else if contains ''app'' (lower text) \<or> contains ''mobile'' (lower text)
                 then ''TW_APP_''
               else if contains ''target'' (lower text) then ''TW_TARGET_''
               else if contains ''sms'' (lower text) \<or> contains ''bot'' (lower text)
                 then ''TW_SMS_''
               else ''TW_UNKNOWN_'') @ pad3 call_number)"
    unfolding extract_call_id_def assms by (simp only: option.case if_distrib [of "\<lambda>p. p @ pad3 call_number"])
  have k: "extract_channel text ''TW_TASORA_'' = ''TASORA''"
    "\<not> contains ''tasora'' (lower text) \<Longrightarrow> extract_channel text ''TW_WEB_'' = ''Web Portal''"
    "\<not> contains ''tasora'' (lower text) \<Longrightarrow> \<not> contains ''web'' (lower text) \<Longrightarrow>
       extract_channel text ''TW_APP_'' = ''Mobile App''"
    "\<not> contains ''tasora'' (lower text) \<Longrightarrow> \<not> contains ''web'' (lower text) \<Longrightarrow>
       \<not> contains ''app'' (lower text) \<Longrightarrow> \<not> contains ''mobile'' (lower text) \<Longrightarrow>
       extract_channel text ''TW_TARGET_'' = ''Target''"
    "\<not> contains ''tasora'' (lower text) \<Longrightarrow> \<not> contains ''web'' (lower text) \<Longrightarrow>
       \<not> contains ''app'' (lower text) \<Longrightarrow> \<not> contains ''mobile'' (lower text) \<Longrightarrow>
       \<not> contains ''target'' (lower text) \<Longrightarrow>
       extract_channel text ''TW_SMS_'' = ''SMS/Bot/IVR''"
    "\<not> contains ''tasora'' (lower text) \<Longrightarrow> \<not> contains ''web'' (lower text) \<Longrightarrow>
       \<not> contains ''app'' (lower text) \<Longrightarrow> \<not> contains ''mobile'' (lower text) \<Longrightarrow>
       \<not> contains ''target'' (lower text) \<Longrightarrow>
       extract_channel text ''TW_UNKNOWN_'' =
         (if contains ''sms'' (lower text) \<or> contains ''bot'' (lower text) \<or>
             contains ''ivr'' (lower text) then ''SMS/Bot/IVR'' else ''Unknown'')"
    using web app mobile
    by (simp_all add: extract_channel_def upper_literals)
  show ?thesis
    unfolding section_channel_def id sum.case ch
    using k by (simp del: contains.simps)
qed


lemma channel_id_label_portal: "section_channel ''ID: 12345 portal'' 1 = Inr ''Unknown''"
  by (simp only: regex_eval string_eval parser_eval
      cong: if_weak_cong list.case_cong_weak option.case_cong_weak prod.case_cong_weak
        sum.case_cong_weak)

lemma channel_web_id_tasora_text: "section_channel ''TW_WEB_001 tasora'' 1 = Inr ''TASORA''"
  by (simp only: regex_eval string_eval parser_eval
      cong: if_weak_cong list.case_cong_weak option.case_cong_weak prod.case_cong_weak
        sum.case_cong_weak)

lemma call_id_web_id_tasora_text: "extract_call_id ''TW_WEB_001 tasora'' 1 = Inr ''TW_WEB_001''"
  by (simp only: regex_eval string_eval parser_eval
      cong: if_weak_cong list.case_cong_weak option.case_cong_weak prod.case_cong_weak
        sum.case_cong_weak)

text \<open>
  Claim C8 says that the channel comes from the channel token of the call id and, failing
  that, from the keywords of call-id synthesis, so that \<^verbatim>\<open>portal\<close> alone gives
  \<^verbatim>\<open>Web Portal\<close>. In the code the section \<^verbatim>\<open>ID: 12345 portal\<close> has the call id
  \<^verbatim>\<open>TW_12345\<close> and the channel \<^verbatim>\<open>Unknown\<close>, and the section
  \<^verbatim>\<open>TW_WEB_001 tasora\<close>, whose call id holds the token \<^verbatim>\<open>WEB\<close>, has the channel
  \<^verbatim>\<open>TASORA\<close>.
\<close>

theorem C8_channel_counterexample:
  "contains ''portal'' (lower ''ID: 12345 portal'') \<and>
   section_channel ''ID: 12345 portal'' 1 = Inr ''Unknown'' \<and>
   extract_call_id ''TW_WEB_001 tasora'' 1 = Inr ''TW_WEB_001'' \<and>
   section_channel ''TW_WEB_001 tasora'' 1 = Inr ''TASORA''"
proof -
  have "contains ''portal'' (lower ''ID: 12345 portal'')"
    by (simp only: regex_eval string_eval
      cong: if_weak_cong list.case_cong_weak option.case_cong_weak prod.case_cong_weak
        sum.case_cong_weak)
  then show ?thesis
    using channel_id_label_portal channel_web_id_tasora_text call_id_web_id_tasora_text
    by simp
qed

text \<open>
  Claim C8, amended. The channel is that of the first rule, in the order TASORA, Web Portal,
  Mobile App, Target, SMS/Bot/IVR, for which the upper-cased call id contains the token
  (\<^verbatim>\<open>TASORA\<close>, \<^verbatim>\<open>WEB\<close>, \<^verbatim>\<open>APP\<close>, \<^verbatim>\<open>TARGET\<close>, \<^verbatim>\<open>SMS\<close>) or the lower-cased
  text contains one of the keywords (\<^verbatim>\<open>tasora\<close>; \<^verbatim>\<open>web portal\<close>, \<^verbatim>\<open>website\<close>;
  \<^verbatim>\<open>mobile app\<close>, \<^verbatim>\<open>application\<close>; \<^verbatim>\<open>target\<close>; \<^verbatim>\<open>sms\<close>, \<^verbatim>\<open>bot\<close>,
  \<^verbatim>\<open>ivr\<close>), and \<^verbatim>\<open>Unknown\<close> when no rule applies. When no id pattern matches the
  section, so that the call id is synthesised, the channel follows the keywords of the
  synthesis: tasora, then web or portal, then app or mobile, then target, then sms, bot or
  ivr.
\<close>

theorem C8_channel:
  "extract_channel text call_id =
     (case find (\<lambda>(token, keywords, channel).
                   contains token (upper call_id) \<or>
                   list_ex (\<lambda>keyword. contains keyword (lower text)) keywords) channel_rules of
        Some (token, keywords, channel) \<Rightarrow> channel
      | None \<Rightarrow> ''Unknown'') \<and>
   (first_id_match id_patterns text = None \<longrightarrow>
    section_channel text call_number =
     Inr (if contains ''tasora'' (lower text) then ''TASORA''
          else if contains ''web'' (lower text) \<or> contains ''portal'' (lower text) then ''Web Portal''
          else if contains ''app'' (lower text) \<or> contains ''mobile'' (lower text) then ''Mobile App''
          else if contains ''target'' (lower text) then ''Target''
          else if contains ''sms'' (lower text) \<or> contains ''bot'' (lower text) \<or>
                  contains ''ivr'' (lower text) then ''SMS/Bot/IVR''
          else ''Unknown''))"
proof -
  have "extract_channel text call_id =
     (case find (\<lambda>(token, keywords, channel).
                   contains token (upper call_id) \<or>
                   list_ex (\<lambda>keyword. contains keyword (lower text)) keywords) channel_rules of
        Some (token, keywords, channel) \<Rightarrow> channel
      | None \<Rightarrow> ''Unknown'')"
    by (simp add: extract_channel_def channel_rules_def del: contains.simps)
  then show ?thesis
    using synthesised_channel [of "text" call_number] by blast
qed

lemma no_id_in_portal_text: "first_id_match id_patterns ''our portal is down'' = None"
  by (simp only: regex_eval string_eval parser_eval
      cong: if_weak_cong list.case_cong_weak option.case_cong_weak prod.case_cong_weak
        sum.case_cong_weak)

lemma keywords_in_portal_text:
  "\<not> contains ''tasora'' (lower ''our portal is down'') \<and>
   contains ''portal'' (lower ''our portal is down'')"
  by (simp only: regex_eval string_eval
      cong: if_weak_cong list.case_cong_weak option.case_cong_weak prod.case_cong_weak
        sum.case_cong_weak)

theorem C8_channel_witness:
  "first_id_match id_patterns ''our portal is down'' = None \<and>
   section_channel ''our portal is down'' 7 = Inr ''Web Portal''"
  using C8_channel [of "''our portal is down''" "''TW_WEB_007''" 7]
    no_id_in_portal_text keywords_in_portal_text
  by (simp del: contains.simps)

subsection \<open>C2: segmentation\<close>

lemma separators_fail_at_a:
  "pattern \<in> set potential_separators \<Longrightarrow> ends True pattern (prev, CHR ''a'' # s, g) = []"
  unfolding potential_separators_def set_simps insert_iff empty_iff
  by (elim disjE; simp only: regex_eval separator_defs cong: if_weak_cong list.case_cong_weak option.case_cong_weak prod.case_cong_weak sum.case_cong_weak)

lemma separators_fail_at_end:
  "pattern \<in> set potential_separators \<Longrightarrow> ends True pattern (prev, [], g) = []"
  unfolding potential_separators_def set_simps insert_iff empty_iff
  by (elim disjE; simp only: regex_eval separator_defs cong: if_weak_cong list.case_cong_weak option.case_cong_weak prod.case_cong_weak sum.case_cong_weak)

lemma separators_fail_at_equals:
  "pattern \<in> set potential_separators \<Longrightarrow> pattern \<noteq> sep_equals \<Longrightarrow>
   ends True pattern (prev, CHR ''='' # s, g) = []"
  unfolding potential_separators_def set_simps insert_iff empty_iff
  by (elim disjE; (simp only: regex_eval separator_defs cong: weak_congs | simp))

lemma scan_no_match:
  assumes "\<And>prev t. set t \<subseteq> set s \<Longrightarrow> ends ic r (prev, t, []) = []"
  shows "scan ic r prev s = ([], s)"
  using assms
proof (induction s arbitrary: prev)
  case Nil
  then show ?case by (simp add: scan.simps [of ic r prev "[]"])
next
  case (Cons c cs)
  have here: "ends ic r (prev, c # cs, []) = []"
    using Cons.prems [of "c # cs"] by simp
  have "scan ic r (Some c) cs = ([], cs)"
    using Cons.IH Cons.prems by (meson set_subset_Cons subset_trans)
  then show ?case
    using here by (simp add: scan.simps [of ic r prev "c # cs"])
qed


lemma block_document_chars: "set t \<subseteq> set (block_document k) \<Longrightarrow> t = [] \<or> (\<exists>u. t = CHR ''a'' # u) \<or> (\<exists>u. t = CHR ''='' # u)"
  by (cases t) (auto simp: block_document_def)

lemma re_split_unmatched:
  assumes "pattern \<in> set potential_separators" and "pattern \<noteq> sep_equals"
  shows "re_split True pattern (block_document k) = [block_document k]"
proof -
  have "ends True pattern (prev, t, []) = []" if "set t \<subseteq> set (block_document k)" for prev t
    using block_document_chars [OF that] assms
      separators_fail_at_a separators_fail_at_end separators_fail_at_equals by blast
  then have "scan True pattern None (block_document k) = ([], block_document k)"
    by (rule scan_no_match)
  then show ?thesis by (simp add: re_split_def)
qed

lemma sep_equals_separator: "sep_equals \<in> set potential_separators"
  by (simp add: potential_separators_def)

lemma scan_letters: "scan True sep_equals prev (replicate m CHR ''a'') = ([], replicate m CHR ''a'')"
proof (rule scan_no_match)
  fix prev t
  assume "set t \<subseteq> set (replicate m CHR ''a'')"
  then have "t = [] \<or> (\<exists>u. t = CHR ''a'' # u)"
    by (cases t) auto
  then show "ends True sep_equals (prev, t, []) = []"
    using separators_fail_at_a separators_fail_at_end sep_equals_separator by blast
qed

lemma ends_equals_then_end:
  "ends True sep_equals (prev, ''==='', []) = [(Some CHR ''='', [], [])]"
  by (simp only: regex_eval separator_defs cong: if_weak_cong list.case_cong_weak option.case_cong_weak prod.case_cong_weak sum.case_cong_weak)

lemma ends_equals_then_letter:
  "ends True sep_equals (prev, ''==='' @ CHR ''a'' # u, []) = [(Some CHR ''='', CHR ''a'' # u, [])]"
  by (simp only: regex_eval separator_defs cong: if_weak_cong list.case_cong_weak option.case_cong_weak prod.case_cong_weak sum.case_cong_weak)

lemma ends_equals_then_letters:
  "ends True sep_equals (prev, ''==='' @ replicate m CHR ''a'', []) =
     [(Some CHR ''='', replicate m CHR ''a'', [])]"
proof (cases m)
  case 0
  then show ?thesis using ends_equals_then_end by simp
next
  case (Suc j)
  then show ?thesis using ends_equals_then_letter [of prev "replicate j CHR ''a''"] by simp
qed

lemma scan_equals_letters:
  "scan True sep_equals prev (''==='' @ replicate m CHR ''a'') =
     ([([], ''==='', [])], replicate m CHR ''a'')"
  using ends_equals_then_letters [of prev m]
  by (subst scan.simps) (simp add: scan_letters consumed_def)

lemma scan_block_document:
  "scan True sep_equals prev (replicate n CHR ''a'' @ ''==='' @ replicate m CHR ''a'') =
     ([(replicate n CHR ''a'', ''==='', [])], replicate m CHR ''a'')"
proof (induction n arbitrary: prev)
  case 0
  then show ?case using scan_equals_letters by simp
next
  case (Suc n)
  have "ends True sep_equals
          (prev, CHR ''a'' # (replicate n CHR ''a'' @ ''==='' @ replicate m CHR ''a''), []) = []"
    using separators_fail_at_a sep_equals_separator by blast
  then show ?case
    using Suc.IH [of "Some CHR ''a''"]
    by (subst scan.simps) simp
qed

lemma re_split_equals:
  "re_split True sep_equals (block_document k) = [replicate k CHR ''a'', replicate k CHR ''a'']"
  using scan_block_document [of None k k] by (simp add: re_split_def block_document_def)

lemma strip_unchanged:
  assumes "s \<noteq> []" and "\<not> is_space (hd s)" and "\<not> is_space (last s)"
  shows "strip s = s"
proof -
  have "dropWhile is_space s = s"
    using assms by (cases s) auto
  moreover have "dropWhile is_space (rev s) = rev s"
    using assms by (cases "rev s") (auto simp: hd_rev)
  ultimately show ?thesis by (simp add: strip_def)
qed

lemma letter_not_space: "\<not> is_space CHR ''a''"
  by (simp add: is_space_Char)

lemma strip_letters: "strip (replicate k CHR ''a'') = replicate k CHR ''a''"
proof (cases k)
  case 0
  then show ?thesis by (simp add: strip_def)
next
  case (Suc j)
  then show ?thesis
    using strip_unchanged [of "replicate k CHR ''a''"] letter_not_space
    by (simp del: replicate.simps add: hd_replicate last_replicate)
qed

lemma strip_block_document: "0 < k \<Longrightarrow> strip (block_document k) = block_document k"
proof -
  assume k: "0 < k"
  then obtain j where j: "k = Suc j" by (cases k) auto
  have "hd (block_document k) = CHR ''a''"
    using j by (simp add: block_document_def)
  moreover have "last (block_document k) = CHR ''a''"
    using k by (simp add: block_document_def)
  moreover have "block_document k \<noteq> []"
    by (simp add: block_document_def)
  ultimately show ?thesis
    using strip_unchanged [of "block_document k"] letter_not_space by simp
qed

lemma length_block_document: "length (block_document k) = 2 * k + 3"
  by (simp add: block_document_def)

lemma valid_splits_unmatched:
  assumes "pattern \<in> set potential_separators" and "pattern \<noteq> sep_equals" and "149 \<le> k"
  shows "valid_splits pattern (block_document k) = [block_document k]"
  using assms strip_block_document [of k] re_split_unmatched [OF assms(1,2), of k]
  by (simp add: valid_splits_def length_block_document)

lemma valid_splits_equals:
  "valid_splits sep_equals (block_document k) =
     (if 300 < k then [replicate k CHR ''a'', replicate k CHR ''a''] else [])"
  by (simp add: valid_splits_def re_split_equals strip_letters)

lemma separators_distinct_from_equals:
  "sep_call_marker \<noteq> sep_equals" "sep_tw_marker \<noteq> sep_equals" "sep_section \<noteq> sep_equals"
  "sep_dashes \<noteq> sep_equals" "sep_transcript \<noteq> sep_equals" "sep_channel_header \<noteq> sep_equals"
  by (simp_all add: separator_defs Plus_def)

lemma candidates_block_document:
  assumes "149 \<le> k"
  shows "candidates (block_document k) =
     [[block_document k], [block_document k], [block_document k],
      (if 300 < k then [replicate k CHR ''a'', replicate k CHR ''a''] else []),
      [block_document k], [block_document k], [block_document k]]"
  using assms separators_distinct_from_equals
  by (simp add: candidates_def potential_separators_def valid_splits_equals
      valid_splits_unmatched [unfolded potential_separators_def])


lemma try_separators_bounds:
  "length calls \<le> length (try_separators ps content calls) \<and>
   (\<forall>p\<in>set ps. length (valid_splits p content) \<le> length (try_separators ps content calls))"
proof (induction ps arbitrary: calls)
  case Nil
  then show ?case by simp
next
  case (Cons p ps)
  let ?calls = "if length (valid_splits p content) > length calls
                then valid_splits p content else calls"
  have "length ?calls \<le> length (try_separators ps content ?calls)"
    and "\<forall>q\<in>set ps. length (valid_splits q content) \<le> length (try_separators ps content ?calls)"
    using Cons.IH [of ?calls] by blast+
  moreover have "length calls \<le> length ?calls" "length (valid_splits p content) \<le> length ?calls"
    by simp_all
  ultimately show ?case by (auto simp del: One_nat_def intro: le_trans)
qed

lemma try_separators_choice:
  "try_separators ps content calls = calls \<or>
   (\<exists>i<length ps. try_separators ps content calls = valid_splits (ps ! i) content \<and>
      length calls < length (valid_splits (ps ! i) content) \<and>
      (\<forall>j<i. length (valid_splits (ps ! j) content) < length (valid_splits (ps ! i) content)))"
proof (induction ps arbitrary: calls)
  case Nil
  then show ?case by simp
next
  case (Cons p ps)
  let ?calls = "if length (valid_splits p content) > length calls
                then valid_splits p content else calls"
  let ?r = "try_separators ps content ?calls"
  have r: "try_separators (p # ps) content calls = ?r" by simp
  have le: "length calls \<le> length ?calls" "length (valid_splits p content) \<le> length ?calls"
    by simp_all
  from Cons.IH [of ?calls] consider
    (same) "?r = ?calls"
    | (later) i where "i < length ps" "?r = valid_splits (ps ! i) content"
        "length ?calls < length (valid_splits (ps ! i) content)"
        "\<forall>j<i. length (valid_splits (ps ! j) content) < length (valid_splits (ps ! i) content)"
    by blast
  then show ?case
  proof cases
    case same
    show ?thesis
    proof (cases "length (valid_splits p content) > length calls")
      case True
      then have "?r = valid_splits ((p # ps) ! 0) content" using same by simp
      then show ?thesis using True r by (intro disjI2 exI [of _ 0]) simp
    next
      case False
      then show ?thesis using same r by simp
    qed
  next
    case later
    have "\<forall>j<Suc i. length (valid_splits ((p # ps) ! j) content)
            < length (valid_splits ((p # ps) ! Suc i) content)"
    proof (intro allI impI)
      fix j assume "j < Suc i"
      show "length (valid_splits ((p # ps) ! j) content)
            < length (valid_splits ((p # ps) ! Suc i) content)"
      proof (cases j)
        case 0
        then show ?thesis using le(2) later(3) by simp
      next
        case (Suc j')
        then show ?thesis using later(4) \<open>j < Suc i\<close> by simp
      qed
    qed
    moreover have "length calls < length (valid_splits ((p # ps) ! Suc i) content)"
      using le(1) later(3) by simp
    moreover have "try_separators (p # ps) content calls = valid_splits ((p # ps) ! Suc i) content"
      using r later(2) by simp
    moreover have "Suc i < length (p # ps)" using later(1) by simp
    ultimately show ?thesis by blast
  qed
qed

lemma segment_calls_fallback:
  assumes "\<forall>c\<in>set (candidates content). c = []"
  shows "segment_calls content = [content]"
proof -
  have "\<forall>p\<in>set potential_separators. valid_splits p content = []"
    using assms by (simp add: candidates_def)
  then have "try_separators potential_separators content [] = []"
    using try_separators_choice [of potential_separators content "[]"] by auto
  then show ?thesis by (simp add: segment_calls_def)
qed

lemma segment_calls_winner:
  assumes "\<exists>c\<in>set (candidates content). c \<noteq> []"
  shows "\<exists>i<length (candidates content).
     segment_calls content = candidates content ! i \<and>
     (\<forall>j<length (candidates content).
        length (candidates content ! j) \<le> length (candidates content ! i)) \<and>
     (\<forall>j<i. length (candidates content ! j) < length (candidates content ! i))"
proof -
  let ?r = "try_separators potential_separators content []"
  from assms obtain p where p: "p \<in> set potential_separators" "valid_splits p content \<noteq> []"
    by (auto simp: candidates_def)
  have bound: "\<forall>q\<in>set potential_separators. length (valid_splits q content) \<le> length ?r"
    using try_separators_bounds [of "[]" potential_separators content] by blast
  then have "?r \<noteq> []" using p by fastforce
  then obtain i where i: "i < length potential_separators"
    "?r = valid_splits (potential_separators ! i) content"
    "\<forall>j<i. length (valid_splits (potential_separators ! j) content)
        < length (valid_splits (potential_separators ! i) content)"
    using try_separators_choice [of potential_separators content "[]"] by auto
  have "segment_calls content = candidates content ! i"
    using \<open>?r \<noteq> []\<close> i(1,2) by (simp add: segment_calls_def candidates_def)
  moreover have "\<forall>j<length (candidates content).
        length (candidates content ! j) \<le> length (candidates content ! i)"
    using bound i(1,2) by (simp add: candidates_def)
  moreover have "\<forall>j<i. length (candidates content ! j) < length (candidates content ! i)"
    using i(1,3) by (simp add: candidates_def)
  moreover have "i < length (candidates content)"
    using i(1) by (simp add: candidates_def)
  ultimately show ?thesis by blast
qed

lemma valid_splits_pieces:
  "set (valid_splits pattern content) =
     {strip s | s. s \<in> set (re_split True pattern content) \<and> 300 < length (strip s)}"
  by (auto simp: valid_splits_def)

text \<open>
  Claim C2, amended. The candidates of a document are the lists of valid pieces of the
  separators, in the order of the separators; the valid pieces of a separator are the
  trimmed pieces of the split whose trimmed length is greater than 300 (a piece of exactly
  300 characters is dropped). When every candidate is empty the document is the only
  section. Otherwise the sections are the first candidate of greatest length: no candidate
  is longer and every earlier candidate is shorter.
\<close>

theorem C2_segmentation:
  "((\<forall>c\<in>set (candidates content). c = []) \<longrightarrow> segment_calls content = [content]) \<and>
   ((\<exists>c\<in>set (candidates content). c \<noteq> []) \<longrightarrow>
      (\<exists>i<length (candidates content).
         segment_calls content = candidates content ! i \<and>
         (\<forall>j<length (candidates content).
            length (candidates content ! j) \<le> length (candidates content ! i)) \<and>
         (\<forall>j<i. length (candidates content ! j) < length (candidates content ! i)))) \<and>
   candidates content = map (\<lambda>pattern. valid_splits pattern content) potential_separators \<and>
   (\<forall>pattern. set (valid_splits pattern content) =
      {strip s | s. s \<in> set (re_split True pattern content) \<and> 300 < length (strip s)})"
  using segment_calls_fallback [of content] segment_calls_winner [of content]
    valid_splits_pieces [of _ content]
  by (simp only: candidates_def [symmetric]) (simp add: candidates_def)

lemma segment_calls_exactly_300:
  "segment_calls (block_document 300) = [block_document 300]"
  by (simp add: segment_calls_def potential_separators_def valid_splits_equals
      valid_splits_unmatched [unfolded potential_separators_def] separators_distinct_from_equals)

text \<open>
  Claim C2 says that pieces of at least 300 characters are kept. In a document of two
  blocks of exactly 300 letters around \<^verbatim>\<open>===\<close> the split on \<^verbatim>\<open>={3,}\<close> has two
  pieces of trimmed length 300; they would be more valid pieces than any other separator
  has. The code drops both, and the document is segmented into the one section that the
  first separator, which matches nowhere, leaves.
\<close>

theorem C2_minimum_length_counterexample:
  "re_split True sep_equals (block_document 300) =
     [replicate 300 CHR ''a'', replicate 300 CHR ''a''] \<and>
   length (strip (replicate 300 CHR ''a'')) = 300 \<and>
   valid_splits sep_equals (block_document 300) = [] \<and>
   segment_calls (block_document 300) = [block_document 300]"
  using re_split_equals [of 300] segment_calls_exactly_300 valid_splits_equals [of 300]
  by (simp add: strip_letters)

lemma candidates_hello: "candidates ''hello'' = [[], [], [], [], [], [], []]"
  by (simp only: regex_eval string_eval separator_defs candidates_def potential_separators_def
      valid_splits_def filter.simps less_nat_zero_code list.size
      cong: if_weak_cong list.case_cong_weak option.case_cong_weak prod.case_cong_weak sum.case_cong_weak)


theorem C2_segmentation_witness:
  "segment_calls ''hello'' = [''hello''] \<and>
   segment_calls (block_document 301) = [replicate 301 CHR ''a'', replicate 301 CHR ''a'']"
proof -
  have "\<forall>c\<in>set (candidates ''hello''). c = []"
    by (simp add: candidates_hello)
  then have first: "segment_calls ''hello'' = [''hello'']"
    using C2_segmentation [of "''hello''"] by blast
  let ?doc = "block_document 301"
  let ?blocks = "[replicate 301 CHR ''a'', replicate 301 CHR ''a'']"
  have cands: "candidates ?doc = [[?doc], [?doc], [?doc], ?blocks, [?doc], [?doc], [?doc]]"
    using candidates_block_document [of 301] by simp
  then have "\<exists>c\<in>set (candidates ?doc). c \<noteq> []"
    by simp
  then obtain i where i: "i < length (candidates ?doc)"
    "segment_calls ?doc = candidates ?doc ! i"
    "\<forall>j<length (candidates ?doc). length (candidates ?doc ! j) \<le> length (candidates ?doc ! i)"
    using C2_segmentation [of ?doc] by blast
  have "3 < length (candidates ?doc)"
    using cands by simp
  then have "length (candidates ?doc ! 3) \<le> length (candidates ?doc ! i)"
    using i(3) by blast
  then have two: "2 \<le> length (candidates ?doc ! i)"
    using cands by simp
  have "i = 0 \<or> i = 1 \<or> i = 2 \<or> i = 3 \<or> i = 4 \<or> i = 5 \<or> i = 6"
    using i(1) cands by auto
  then have "i = 3"
    using two cands by auto
  then have "segment_calls ?doc = ?blocks"
    using i(2) cands by simp
  then show ?thesis using first by simp
qed

subsection \<open>C1: masking twice\<close>




















subsection \<open>C6: one failing section or record\<close>

lemma parse_calls_records:
  "\<exists>records. parse_calls sections i acc = Inr (acc @ records) \<and>
     list_all2 (\<lambda>(j, section) parsed_call. parse_single_call section (j + 1) = Inr parsed_call)
       (filter (\<lambda>(j, section). 100 \<le> length (strip section)) (enumerate i sections)) records"
proof (induction sections arbitrary: i acc)
  case Nil
  then show ?case by simp
next
  case (Cons s rest)
  show ?case
  proof (cases "length (strip s) < 100")
    case True
    from Cons.IH [of "Suc i" acc] obtain records where
      "parse_calls rest (Suc i) acc = Inr (acc @ records)"
      "list_all2 (\<lambda>(j, section) parsed_call. parse_single_call section (j + 1) = Inr parsed_call)
         (filter (\<lambda>(j, section). 100 \<le> length (strip section)) (enumerate (Suc i) rest)) records"
      by blast
    then show ?thesis using True by (intro exI [of _ records]) simp
  next
    case False
    obtain parsed_call where call: "parse_single_call s (i + 1) = Inr parsed_call"
      and filled: "parsed_call \<noteq> []"
      using parse_single_call_total by blast
    from Cons.IH [of "Suc i" "acc @ [parsed_call]"] obtain records where
      "parse_calls rest (Suc i) (acc @ [parsed_call]) = Inr ((acc @ [parsed_call]) @ records)"
      "list_all2 (\<lambda>(j, section) parsed_call. parse_single_call section (j + 1) = Inr parsed_call)
         (filter (\<lambda>(j, section). 100 \<le> length (strip section)) (enumerate (Suc i) rest)) records"
      by blast
    then show ?thesis
      using False call filled by (intro exI [of _ "parsed_call # records"]) simp
  qed
qed

lemma parse_text_content_records:
  "\<exists>parsed_calls. parse_text_content content = Inr parsed_calls \<and>
     list_all2 (\<lambda>(i, section) parsed_call. parse_single_call section (i + 1) = Inr parsed_call)
       (filter (\<lambda>(i, section). 100 \<le> length (strip section))
          (enumerate 0 (segment_calls content))) parsed_calls \<and>
     parse_pdf content = (if content = [] then [] else parsed_calls)"
  using parse_calls_records [of "segment_calls content" 0 "[]"]
  by (auto simp: parse_text_content_def parse_pdf_def)

text \<open>
  Claim C6 says that a record whose masking raises is left out and the rest of the batch
  is still masked and written. In the code one \<^verbatim>\<open>try\<close> surrounds the whole of
  \<^verbatim>\<open>mask_data\<close>: a batch of a good record and a record whose masking raises
  \<^verbatim>\<open>TypeError\<close> writes nothing, although the good record alone is masked and written.
\<close>

theorem C6_fault_isolation_counterexample:
  "mask_data [example_record, example_number_record] = None \<and>
   mask_data [example_record] \<noteq> None"
proof -
  have "mask_data [example_record, example_number_record] = None"
    using mask_data_aborts [of example_number_record "[example_record, example_number_record]"]
      example_number_record_fails by simp
  moreover have "mask_data [example_record] \<noteq> None"
    using example_record_masked
    by (simp add: mask_data_def zero_tally_def pii_patterns_def example_record_def)
  ultimately show ?thesis by simp
qed

text \<open>
  Claim C6, amended. In parsing no section aborts the batch and none is lost to a failed
  extraction, because the field extraction raises no exception on any text:
  \<^verbatim>\<open>_parse_text_content\<close> returns the parsed call of every section whose trimmed length
  is at least 100 characters, in the order of the sections and numbered by position, and
  skips exactly the shorter sections; \<^verbatim>\<open>parse_pdf\<close> returns these parsed calls for a
  text that is not empty. Masking has no fault isolation per record. When
  \<^verbatim>\<open>mask_data\<close> writes its output, every record of the batch was masked without an
  exception and the output holds the masked records, one for each record and in the same
  order; when the masking of any record raises an exception, the whole run fails and
  nothing is written.
\<close>

theorem C6_batch_processing:
  "(\<exists>parsed_calls. parse_text_content content = Inr parsed_calls \<and>
      list_all2 (\<lambda>(i, section) parsed_call. parse_single_call section (i + 1) = Inr parsed_call)
        (filter (\<lambda>(i, section). 100 \<le> length (strip section))
           (enumerate 0 (segment_calls content))) parsed_calls \<and>
      parse_pdf content = (if content = [] then [] else parsed_calls)) \<and>
   (mask_data transcripts = Some (written, pii_stats) \<longrightarrow>
      length written = length transcripts \<and>
      (\<forall>i<length transcripts.
         \<exists>tally. mask_single_transcript (transcripts ! i) = Inr (written ! i, tally))) \<and>
   ((\<exists>t\<in>set transcripts. \<exists>e. mask_single_transcript t = Inl e) \<longrightarrow>
      mask_data transcripts = None)"
proof -
  have "mask_data transcripts = Some (written, pii_stats) \<longrightarrow>
      length written = length transcripts \<and>
      (\<forall>i<length transcripts.
         \<exists>tally. mask_single_transcript (transcripts ! i) = Inr (written ! i, tally))"
    using mask_data_results [of transcripts written pii_stats]
    by (auto simp: list_all2_conv_all_nth)
  moreover have "(\<exists>t\<in>set transcripts. \<exists>e. mask_single_transcript t = Inl e) \<longrightarrow>
      mask_data transcripts = None"
    using mask_data_aborts [of _ transcripts] by blast
  ultimately show ?thesis
    using parse_text_content_records [of content] by blast
qed

lemma mask_data_two:
  "mask_data [example_record, example_digits_id_record] =
     Some ([example_record(''transcript'' \<mapsto> JStr ''Call me at [PHONE_NUMBER]'',
                         ''call_id'' \<mapsto> JStr ''TW_WEB_001''),
            example_digits_id_record(''transcript'' \<mapsto> JStr ''Call me at [PHONE_NUMBER]'',
                         ''call_id'' \<mapsto> JStr ''[PHONE_NUMBER]'')],
          [(''phone_numbers'', 2), (''emails'', 0), (''account_numbers'', 0),
           (''imei_numbers'', 0), (''credit_cards'', 0), (''ssn'', 0), (''names'', 0),
           (''addresses'', 0)])"
  unfolding mask_data_def mask_all.simps example_record_masked example_digits_id_record_masked
  by (simp only: logic_eval record_eval add_count.simps zero_tally_def pii_patterns_def
      cong: if_weak_cong list.case_cong_weak option.case_cong_weak prod.case_cong_weak
        sum.case_cong_weak)

lemma segment_calls_two_blocks:
  "segment_calls (block_document 301) = [replicate 301 CHR ''a'', replicate 301 CHR ''a'']"
  by (simp add: segment_calls_def potential_separators_def valid_splits_equals
      valid_splits_unmatched [unfolded potential_separators_def] separators_distinct_from_equals)

lemma candidates_example_section: "candidates example_section = [[], [], [], [], [], [], []]"
  by (simp only: regex_eval string_eval separator_defs candidates_def potential_separators_def
      valid_splits_def filter.simps less_nat_zero_code list.size example_section_def
      cong: if_weak_cong list.case_cong_weak option.case_cong_weak prod.case_cong_weak
        sum.case_cong_weak)

lemma segment_calls_example_section: "segment_calls example_section = [example_section]"
  using segment_calls_fallback [of example_section] by (simp add: candidates_example_section)

lemma strip_example_section: "length (strip example_section) = 48"
proof -
  have "strip example_section = example_section"
    by (rule strip_unchanged) (simp_all add: example_section_def is_space_Char)
  then show ?thesis by (simp add: example_section_def)
qed

theorem C6_batch_processing_witness:
  "(\<exists>call1 call2.
      parse_text_content (block_document 301) = Inr [call1, call2] \<and>
      parse_single_call (replicate 301 CHR ''a'') 1 = Inr call1 \<and>
      parse_single_call (replicate 301 CHR ''a'') 2 = Inr call2) \<and>
   parse_text_content example_section = Inr [] \<and>
   (\<exists>written pii_stats.
      mask_data [example_record, example_digits_id_record] = Some (written, pii_stats) \<and>
      length written = 2 \<and>
      (\<exists>tally. mask_single_transcript example_digits_id_record = Inr (written ! 1, tally))) \<and>
   mask_data [example_record, example_number_record] = None"
proof -
  let ?good = "[example_record, example_digits_id_record]"
  let ?bad = "[example_record, example_number_record]"
  let ?block = "replicate 301 CHR ''a''"
  obtain written pii_stats where w: "mask_data ?good = Some (written, pii_stats)"
    using mask_data_two by blast
  note good = C6_batch_processing [of "block_document 301" ?good written pii_stats]
  note bad = C6_batch_processing [of example_section ?bad]
  from good obtain parsed_calls where
    p: "parse_text_content (block_document 301) = Inr parsed_calls"
    and calls: "list_all2 (\<lambda>(i, section) parsed_call. parse_single_call section (i + 1) = Inr parsed_call)
        (filter (\<lambda>(i, section). 100 \<le> length (strip section))
           (enumerate 0 (segment_calls (block_document 301)))) parsed_calls"
    by blast
  have "filter (\<lambda>(i, section). 100 \<le> length (strip section))
           (enumerate 0 (segment_calls (block_document 301))) = [(0, ?block), (1, ?block)]"
    by (simp add: segment_calls_two_blocks strip_letters)
  then have "\<exists>call1 call2. parsed_calls = [call1, call2] \<and>
      parse_single_call ?block 1 = Inr call1 \<and> parse_single_call ?block 2 = Inr call2"
    using calls by (auto simp: list_all2_Cons1 numeral_2_eq_2)
  then have blocks: "\<exists>call1 call2.
      parse_text_content (block_document 301) = Inr [call1, call2] \<and>
      parse_single_call ?block 1 = Inr call1 \<and> parse_single_call ?block 2 = Inr call2"
    using p by blast
  from bad obtain short_calls where
    s: "parse_text_content example_section = Inr short_calls"
    and short: "list_all2 (\<lambda>(i, section) parsed_call. parse_single_call section (i + 1) = Inr parsed_call)
        (filter (\<lambda>(i, section). 100 \<le> length (strip section))
           (enumerate 0 (segment_calls example_section))) short_calls"
    by blast
  have "filter (\<lambda>(i, section). 100 \<le> length (strip section))
           (enumerate 0 (segment_calls example_section)) = []"
    by (simp add: segment_calls_example_section strip_example_section)
  then have skipped: "parse_text_content example_section = Inr []"
    using s short by simp
  have all: "length written = length ?good \<and>
      (\<forall>i<length ?good. \<exists>tally. mask_single_transcript (?good ! i) = Inr (written ! i, tally))"
    using good w by blast
  then have "1 < length ?good \<longrightarrow>
      (\<exists>tally. mask_single_transcript (?good ! 1) = Inr (written ! 1, tally))"
    by blast
  then have one: "\<exists>tally. mask_single_transcript example_digits_id_record = Inr (written ! 1, tally)"
    by simp
  have "\<exists>t\<in>set ?bad. \<exists>e. mask_single_transcript t = Inl e"
    using example_number_record_fails by auto
  then have "mask_data ?bad = None"
    using bad by blast
  then show ?thesis using w all one blocks skipped by auto
qed

end
